theory Spec2Isabelle
  imports Main "HOL-Library.Word"
begin

unbundle bit_operations_syntax

section \<open>Strings and paths\<close>

text \<open>
  Python strings are modelled as \<^typ>\<open>string\<close> restricted to ASCII, so \<open>str.lower\<close> and
  \<open>str.upper\<close> only move the 26 letters.
\<close>

definition upper_letters :: string where
  "upper_letters = ''ABCDEFGHIJKLMNOPQRSTUVWXYZ''"

definition lower_letters :: string where
  "lower_letters = ''abcdefghijklmnopqrstuvwxyz''"

definition lower_char :: "char \<Rightarrow> char" where
  "lower_char c = (case map_of (zip upper_letters lower_letters) c of None \<Rightarrow> c | Some d \<Rightarrow> d)"

definition upper_char :: "char \<Rightarrow> char" where
  "upper_char c = (case map_of (zip lower_letters upper_letters) c of None \<Rightarrow> c | Some d \<Rightarrow> d)"

definition lower :: "string \<Rightarrow> string" where
  "lower s = map lower_char s"

definition upper :: "string \<Rightarrow> string" where
  "upper s = map upper_char s"

text \<open>
  A \<open>pathlib.Path\<close> with a final component is a pair: the components of its parent and its
  name. \<open>Path(d) / n\<close> is \<open>(d, n)\<close>; \<open>p / n\<close> for a path \<open>p\<close> is \<open>pjoin p n\<close>.
\<close>

type_synonym path = "string list \<times> string"

definition dir_of :: "path \<Rightarrow> string list" where
  "dir_of p = fst p @ [snd p]"

definition pjoin :: "path \<Rightarrow> string \<Rightarrow> path" where
  "pjoin p n = (dir_of p, n)"

definition name_of :: "path \<Rightarrow> string" where
  "name_of p = snd p"

text \<open>\<open>str.rfind('.')\<close>: the index of the last dot, \<open>None\<close> for Python's \<open>-1\<close>.\<close>

fun rfind_dot :: "string \<Rightarrow> nat option" where
  "rfind_dot [] = None"
| "rfind_dot (c # cs) =
     (case rfind_dot cs of
        Some i \<Rightarrow> Some (Suc i)
      | None \<Rightarrow> (if c = CHR ''.'' then Some 0 else None))"

text \<open>
  \<open>PurePath.suffix\<close> and \<open>PurePath.stem\<close>: the name is split at its last dot when that dot
  is neither the first nor the last character (\<open>0 < i < len(name) - 1\<close>).
\<close>

definition suffix :: "string \<Rightarrow> string" where
  "suffix n =
     (case rfind_dot n of
        Some i \<Rightarrow> (if 0 < i \<and> Suc i < length n then drop i n else [])
      | None \<Rightarrow> [])"

definition stem :: "string \<Rightarrow> string" where
  "stem n =
     (case rfind_dot n of
        Some i \<Rightarrow> (if 0 < i \<and> Suc i < length n then take i n else n)
      | None \<Rightarrow> n)"

definition with_name :: "path \<Rightarrow> string \<Rightarrow> path" where
  "with_name p n = (fst p, n)"

section \<open>The xxhash library: XXH64 with seed 0\<close>

type_synonym byte = "8 word"

definition PRIME64_1 :: "64 word" where "PRIME64_1 = 0x9E3779B185EBCA87"
definition PRIME64_2 :: "64 word" where "PRIME64_2 = 0xC2B2AE3D27D4EB4F"
definition PRIME64_3 :: "64 word" where "PRIME64_3 = 0x165667B19E3779F9"
definition PRIME64_4 :: "64 word" where "PRIME64_4 = 0x85EBCA77C2B2AE63"
definition PRIME64_5 :: "64 word" where "PRIME64_5 = 0x27D4EB2F165667C5"

definition rotl64 :: "64 word \<Rightarrow> nat \<Rightarrow> 64 word" where
  "rotl64 x r = (push_bit r x) OR (drop_bit (64 - r) x)"

text \<open>Little-endian read of the bytes given.\<close>

fun read_le :: "byte list \<Rightarrow> 64 word" where
  "read_le [] = 0"
| "read_le (b # bs) = ucast b OR push_bit 8 (read_le bs)"

definition xxh_round :: "64 word \<Rightarrow> 64 word \<Rightarrow> 64 word" where
  "xxh_round acc inp = rotl64 (acc + inp * PRIME64_2) 31 * PRIME64_1"

definition xxh_merge_round :: "64 word \<Rightarrow> 64 word \<Rightarrow> 64 word" where
  "xxh_merge_round acc v = (acc XOR xxh_round 0 v) * PRIME64_1 + PRIME64_4"

text \<open>The stripe loop: four lanes, 32 bytes per step; returns the lanes and the rest.\<close>

fun xxh_stripes ::
  "64 word \<times> 64 word \<times> 64 word \<times> 64 word \<Rightarrow> byte list \<Rightarrow> nat \<Rightarrow>
   (64 word \<times> 64 word \<times> 64 word \<times> 64 word) \<times> byte list" where
  "xxh_stripes vs bs 0 = (vs, bs)"
| "xxh_stripes (v1, v2, v3, v4) bs (Suc k) =
     xxh_stripes
       (xxh_round v1 (read_le (take 8 bs)),
        xxh_round v2 (read_le (take 8 (drop 8 bs))),
        xxh_round v3 (read_le (take 8 (drop 16 bs))),
        xxh_round v4 (read_le (take 8 (drop 24 bs))))
       (drop 32 bs) k"

fun xxh_tail8 :: "64 word \<Rightarrow> byte list \<Rightarrow> nat \<Rightarrow> 64 word \<times> byte list" where
  "xxh_tail8 h bs 0 = (h, bs)"
| "xxh_tail8 h bs (Suc k) =
     xxh_tail8 (rotl64 (h XOR xxh_round 0 (read_le (take 8 bs))) 27 * PRIME64_1 + PRIME64_4)
       (drop 8 bs) k"

fun xxh_tail1 :: "64 word \<Rightarrow> byte list \<Rightarrow> 64 word" where
  "xxh_tail1 h [] = h"
| "xxh_tail1 h (b # bs) = xxh_tail1 (rotl64 (h XOR (ucast b * PRIME64_5)) 11 * PRIME64_1) bs"

definition xxh_avalanche :: "64 word \<Rightarrow> 64 word" where
  "xxh_avalanche h0 =
     (let h1 = (h0 XOR drop_bit 33 h0) * PRIME64_2;
          h2 = (h1 XOR drop_bit 29 h1) * PRIME64_3
      in h2 XOR drop_bit 32 h2)"

definition xxh64 :: "byte list \<Rightarrow> 64 word" where
  "xxh64 bs =
     (let n = length bs;
          (h0, rest) =
            (if 32 \<le> n then
               (case xxh_stripes (PRIME64_1 + PRIME64_2, PRIME64_2, 0, - PRIME64_1) bs (n div 32) of
                  ((v1, v2, v3, v4), r) \<Rightarrow>
                    (xxh_merge_round (xxh_merge_round (xxh_merge_round (xxh_merge_round
                       (rotl64 v1 1 + rotl64 v2 7 + rotl64 v3 12 + rotl64 v4 18) v1) v2) v3) v4, r))
             else (PRIME64_5, bs));
          (h1, rest1) = xxh_tail8 (h0 + of_nat n) rest (length rest div 8);
          (h2, rest2) =
            (if 4 \<le> length rest1
             then (rotl64 (h1 XOR (read_le (take 4 rest1) * PRIME64_1)) 23 * PRIME64_2 + PRIME64_3,
                   drop 4 rest1)
             else (h1, rest1))
      in xxh_avalanche (xxh_tail1 h2 rest2))"

definition hex_digits :: string where
  "hex_digits = ''0123456789abcdef''"

text \<open>\<open>hexdigest()\<close>: the 16 lower-case hexadecimal digits of the digest, high nibble first.\<close>

definition hexdigest :: "64 word \<Rightarrow> string" where
  "hexdigest w = map (\<lambda>i. hex_digits ! (unat (drop_bit (4 * i) w AND 15))) (rev [0..<16])"

section \<open>The environment: source volume, destination tree, state file, console\<close>

text \<open>
  A file on the removable volume: \<open>stat\<close> succeeds when the file is there, \<open>open\<close> when it
  is there and readable.
\<close>

record srcfile =
  data :: "byte list"
  readable :: bool

type_synonym volume = "path \<rightharpoonup> srcfile"

datatype node = File "byte list" | Dir

text \<open>The content of \<open>state.json\<close>: absent, not valid JSON, or the fingerprints listed.\<close>

datatype state_json = Missing | Invalid | Valid "string set"

datatype error = OSError | KeyError | TypeError

text \<open>
  The console lines that are kept: \<open>Copying src to dst\<close> after a successful \<open>copy2\<close>,
  \<open>Exception: ...\<close> after a failed one, and \<open>Saved the current state ...\<close> after a write of
  the state file. The other prints and the notifications change no state and are left out.
\<close>

datatype event = Copying path path | Exception_line path path | Saved "string set"

text \<open>
  The destination side. \<open>unwritable\<close> stands for every reason a write can fail (permission
  denied, disk full); the scanned volume is read-only and kept apart from the destination
  tree, and \<open>mkdir\<close> below the output root is taken to succeed.
\<close>

record world =
  files :: "path \<rightharpoonup> node"
  unwritable :: "path set"
  state_file :: state_json
  console :: "event list"

section \<open>FileManager\<close>

definition exists_path :: "world \<Rightarrow> path \<Rightarrow> bool" where
  "exists_path w p = (files w p \<noteq> None)"

text \<open>
  \<open>shutil.copy2(src, dst)\<close>: a destination that is a directory receives the file under the
  source's base name. A failed copy leaves the destination tree as it was.
\<close>

definition copy2 :: "volume \<Rightarrow> path \<Rightarrow> path \<Rightarrow> world \<Rightarrow> error + world" where
  "copy2 vol src dst w =
     (let target = (if files w dst = Some Dir then pjoin dst (name_of src) else dst)
      in case vol src of
           None \<Rightarrow> Inl OSError
         | Some f \<Rightarrow>
             if \<not> readable f then Inl OSError
             else if target \<in> unwritable w then Inl OSError
             else if files w target = Some Dir then Inl OSError
             else Inr (w\<lparr>files := (files w)(target \<mapsto> File (data f))\<rparr>))"

text \<open>The path \<open>copy_file\<close> hands to \<open>copy2\<close>.\<close>

definition copy_target :: "world \<Rightarrow> path \<Rightarrow> path" where
  "copy_target w new_file_path =
     (if exists_path w new_file_path
      then with_name new_file_path
             (stem (name_of new_file_path) @ ''_copy'' @ suffix (name_of new_file_path))
      else new_file_path)"

definition copy_file :: "volume \<Rightarrow> path \<Rightarrow> path \<Rightarrow> world \<Rightarrow> world" where
  "copy_file vol old_file_path new_file_path w =
     (let new_file_path = copy_target w new_file_path
      in case copy2 vol old_file_path new_file_path w of
           Inr w' \<Rightarrow> w'\<lparr>console := console w' @ [Copying old_file_path new_file_path]\<rparr>
         | Inl ex \<Rightarrow> w\<lparr>console := console w @ [Exception_line old_file_path new_file_path]\<rparr>)"

definition get_file_size :: "volume \<Rightarrow> path \<Rightarrow> error + nat" where
  "get_file_size vol file_path =
     (case vol file_path of None \<Rightarrow> Inl OSError | Some f \<Rightarrow> Inr (length (data f)))"

definition MiB :: nat where
  "MiB = 1024 * 1024"

text \<open>
  \<open>f.read(n)\<close> at offset 0 is \<open>take n\<close>; \<open>f.seek(-n, SEEK_END)\<close> raises when the file is
  shorter than \<open>n\<close>, and the \<open>f.read()\<close> after it is \<open>drop (length - n)\<close>. The two
  \<open>h.update\<close> calls hash the concatenation.
\<close>

definition get_checksum :: "volume \<Rightarrow> path \<Rightarrow> nat \<Rightarrow> error + string" where
  "get_checksum vol filename file_size =
     (case vol filename of
        None \<Rightarrow> Inl OSError
      | Some f \<Rightarrow>
          if \<not> readable f then Inl OSError
          else if file_size < 100 * MiB
          then Inr (hexdigest (xxh64 (data f)) @ ''_xxh64'')
          else if length (data f) < 5 * MiB then Inl OSError
          else Inr (hexdigest (xxh64 (take (5 * MiB) (data f) @
                      drop (length (data f) - 5 * MiB) (data f))) @ ''_partial_xxh64''))"

text \<open>\<open>Path.mkdir(parents=True)\<close>: the directory and every missing ancestor.\<close>

fun ancestors :: "string list \<Rightarrow> path list" where
  "ancestors [] = []"
| "ancestors (c # cs) = ([], c) # map (\<lambda>(d, n). (c # d, n)) (ancestors cs)"

definition mkdir_parents :: "path \<Rightarrow> world \<Rightarrow> world" where
  "mkdir_parents p w =
     w\<lparr>files := fold (\<lambda>q f. if f q = None then f(q \<mapsto> Dir) else f)
                   (ancestors (fst p) @ [p]) (files w)\<rparr>"

definition create_directory_or_file :: "string list \<Rightarrow> string \<Rightarrow> world \<Rightarrow> path \<times> world" where
  "create_directory_or_file output_dir path_name1 w =
     (let directory = (output_dir, path_name1)
      in if \<not> exists_path w directory then (directory, mkdir_parents directory w)
         else (directory, w))"

section \<open>SettingsManager\<close>

record settings =
  prioritized_file_extensions :: "string list"
  disabled_file_extensions :: "string list"
  default_output_dir :: "string list"
  copy_only_priority :: bool
  skip_prompts :: bool
  enable_priority :: bool

definition is_extension_valid :: "string \<Rightarrow> bool" where
  "is_extension_valid extension = (1 < length extension \<and> hd extension = CHR ''.'')"

fun priority_loop :: "string list \<Rightarrow> string set \<Rightarrow> string list \<Rightarrow> string list" where
  "priority_loop [] seen priority_list = priority_list"
| "priority_loop (e # es) seen priority_list =
     (let extension = lower e
      in if is_extension_valid extension \<and> extension \<notin> seen
         then priority_loop es (insert extension seen) (priority_list @ [extension])
         else priority_loop es seen priority_list)"

definition get_priority_list :: "settings \<Rightarrow> string list" where
  "get_priority_list st = priority_loop (prioritized_file_extensions st) {} []"

definition disabled_extensions :: "settings \<Rightarrow> string set" where
  "disabled_extensions st = set (map lower (disabled_file_extensions st))"

definition create_state_file :: "world \<Rightarrow> string set \<times> world" where
  "create_state_file w = ({}, w\<lparr>state_file := Valid {}\<rparr>)"

definition get_copied :: "world \<Rightarrow> string set \<times> world" where
  "get_copied w =
     (case state_file w of
        Valid fingerprints \<Rightarrow> (fingerprints, w)
      | Invalid \<Rightarrow> create_state_file w
      | Missing \<Rightarrow> create_state_file w)"

definition save_state :: "string set \<Rightarrow> world \<Rightarrow> world" where
  "save_state state w = w\<lparr>state_file := Valid state, console := console w @ [Saved state]\<rparr>"

section \<open>CopyManager\<close>

text \<open>A pending file record: \<open>(checksum, old_file_path, file_size)\<close>.\<close>

type_synonym pending = "string \<times> path \<times> nat"

text \<open>
  The buckets are Python sets of pending records. They are kept here as duplicate-free
  lists in insertion order, which fixes one of the iteration orders Python may choose.
\<close>

definition set_add :: "'a \<Rightarrow> 'a list \<Rightarrow> 'a list" where
  "set_add x xs = (if x \<in> set xs then xs else xs @ [x])"

text \<open>A \<open>dict\<close> in insertion order: \<open>d[k] = v\<close> keeps the place of a key that is there.\<close>

definition dict_set :: "('k \<times> 'v) list \<Rightarrow> 'k \<Rightarrow> 'v \<Rightarrow> ('k \<times> 'v) list" where
  "dict_set d k v =
     (if k \<in> fst ` set d then map (\<lambda>(k', v'). if k' = k then (k', v) else (k', v')) d
      else d @ [(k, v)])"

text \<open>\<open>{priority: set() for priority in keys}\<close>\<close>

definition dict_init :: "string list \<Rightarrow> (string \<times> pending list) list" where
  "dict_init keys = fold (\<lambda>priority d. dict_set d priority []) keys []"

text \<open>\<open>lower_priority_files[extension].add(r)\<close>, with the \<open>KeyError\<close> of a missing key.\<close>

definition bucket_add ::
  "string \<Rightarrow> pending \<Rightarrow> (string \<times> pending list) list \<Rightarrow> error + (string \<times> pending list) list" where
  "bucket_add extension r d =
     (case map_of d extension of
        None \<Rightarrow> Inl KeyError
      | Some bucket \<Rightarrow> Inr (dict_set d extension (set_add r bucket)))"

text \<open>
  The branch of \<open>walk_through_files\<close> a file takes once its checksum is known to be new,
  as a function of its lower-cased extension.
\<close>

datatype route =
    Copy_first_priority
  | Queue_lower_priority
  | Queue_non_priority
  | Copy_all_files
  | Skip_disabled

definition route :: "string list \<Rightarrow> bool \<Rightarrow> string set \<Rightarrow> string \<Rightarrow> route" where
  "route priority_list wants_priority disabled extension =
     (if priority_list \<noteq> [] \<and> wants_priority then
        if extension \<in> set priority_list then
          if extension = lower (hd priority_list) then Copy_first_priority
          else Queue_lower_priority
        else
          if extension \<notin> disabled then Queue_non_priority else Skip_disabled
      else
        if extension \<notin> disabled then Copy_all_files else Skip_disabled)"

text \<open>
  The state of one scan. \<open>first_run\<close> and \<open>size_of_copied\<close> only feed messages and are left
  out; \<open>number_of_copied\<close> decides whether the state file is written.
\<close>

record scan =
  lower_priority_files :: "(string \<times> pending list) list"
  non_priority_files :: "pending list"
  copied :: "string set"
  number_of_copied :: nat
  env :: world

text \<open>A run that raises stops with the error and the world as it is at that moment.\<close>

type_synonym 'a result = "(error \<times> world) + 'a"

text \<open>
  The body of the two nested \<open>for\<close> loops of \<open>walk_through_files\<close>, for one file. For the
  first file of priority 1 the source calls \<open>create_directory_or_file\<close> twice with the same
  arguments; the second call finds the directory, so one call stands for both.
\<close>

definition visit_file ::
  "volume \<Rightarrow> string list \<Rightarrow> string list \<Rightarrow> bool \<Rightarrow> string set \<Rightarrow> path \<Rightarrow> scan \<Rightarrow> scan result" where
  "visit_file vol output_dir priority_list wants_priority disabled old_file_path s =
     (case get_file_size vol old_file_path of
        Inl e \<Rightarrow> Inl (e, env s)
      | Inr file_size \<Rightarrow>
     (case get_checksum vol old_file_path file_size of
        Inl e \<Rightarrow> Inl (e, env s)
      | Inr checksum \<Rightarrow>
          if checksum \<in> copied s then Inr s
          else
            (case route priority_list wants_priority disabled
                    (lower (suffix (name_of old_file_path))) of
               Copy_first_priority \<Rightarrow>
                 (let (dir, w1) = create_directory_or_file output_dir
                                    (''Priority_'' @ drop 1 (hd priority_list)) (env s);
                      new_file_path = pjoin dir (name_of old_file_path)
                  in Inr (s\<lparr>copied := insert checksum (copied s),
                            number_of_copied := Suc (number_of_copied s),
                            env := copy_file vol old_file_path new_file_path w1\<rparr>))
             | Queue_lower_priority \<Rightarrow>
                 (case bucket_add (lower (suffix (name_of old_file_path)))
                         (checksum, old_file_path, file_size) (lower_priority_files s) of
                    Inl e \<Rightarrow> Inl (e, env s)
                  | Inr d \<Rightarrow> Inr (s\<lparr>lower_priority_files := d\<rparr>))
             | Queue_non_priority \<Rightarrow>
                 Inr (s\<lparr>non_priority_files :=
                           set_add (checksum, old_file_path, file_size) (non_priority_files s)\<rparr>)
             | Copy_all_files \<Rightarrow>
                 (let (new_file_path, w1) =
                        create_directory_or_file output_dir ''All_files_copied'' (env s)
                  in Inr (s\<lparr>copied := insert checksum (copied s),
                            number_of_copied := Suc (number_of_copied s),
                            env := copy_file vol old_file_path new_file_path w1\<rparr>))
             | Skip_disabled \<Rightarrow> Inr s)))"

text \<open>
  \<open>os.walk(drive)\<close> yields \<open>(dirpath, subdirs, filenames)\<close>; the files are visited
  directory by directory, in the order listed.
\<close>

definition walk_files :: "(string list \<times> string list) list \<Rightarrow> path list" where
  "walk_files listing =
     concat (map (\<lambda>(dirpath, filenames). map (\<lambda>filename. (dirpath, filename)) filenames) listing)"

fun scan_loop ::
  "volume \<Rightarrow> string list \<Rightarrow> string list \<Rightarrow> bool \<Rightarrow> string set \<Rightarrow> path list \<Rightarrow> scan \<Rightarrow> scan result" where
  "scan_loop vol output_dir priority_list wants_priority disabled [] s = Inr s"
| "scan_loop vol output_dir priority_list wants_priority disabled (p # ps) s =
     (case visit_file vol output_dir priority_list wants_priority disabled p s of
        Inl e \<Rightarrow> Inl e
      | Inr s' \<Rightarrow> scan_loop vol output_dir priority_list wants_priority disabled ps s')"

record drive =
  letter :: string
  listing :: "(string list \<times> string list) list"
  contents :: volume

definition walk_through_files ::
  "string set \<Rightarrow> drive \<Rightarrow> string list \<Rightarrow> string list \<Rightarrow> string set \<Rightarrow> bool \<Rightarrow> bool \<Rightarrow> world \<Rightarrow>
   ((string \<times> pending list) list \<times> pending list \<times> string set \<times> world) result" where
  "walk_through_files disabled drv output_dir priority_list copied0 temp_state wants_priority w =
     (case scan_loop (contents drv) output_dir priority_list wants_priority disabled
             (walk_files (listing drv))
             \<lparr>lower_priority_files = dict_init (drop 1 priority_list),
              non_priority_files = [],
              copied = copied0,
              number_of_copied = 0,
              env = w\<rparr> of
        Inl e \<Rightarrow> Inl e
      | Inr s \<Rightarrow>
          Inr (lower_priority_files s, non_priority_files s, copied s,
               (if priority_list \<noteq> [] \<and> wants_priority then
                  if 0 < number_of_copied s \<and> \<not> temp_state then
                    if \<not> temp_state then save_state (copied s) (env s) else env s
                  else env s
                else
                  if 0 < number_of_copied s then
                    if \<not> temp_state then save_state (copied s) (env s) else env s
                  else env s)))"

text \<open>The inner loop of a drain: copy every record of one bucket into \<open>dir\<close>.\<close>

fun drain_files ::
  "volume \<Rightarrow> path \<Rightarrow> pending list \<Rightarrow> string set \<times> nat \<times> world \<Rightarrow> string set \<times> nat \<times> world" where
  "drain_files vol dir [] st = st"
| "drain_files vol dir ((checksum, old_file_path, file_size) # rs) (copied0, n, w) =
     drain_files vol dir rs
       (insert checksum copied0, Suc n, copy_file vol old_file_path (pjoin dir (name_of old_file_path)) w)"

text \<open>One turn of the loop of \<open>copy_other_priorities\<close> over \<open>lower_priority_files.items()\<close>.\<close>

definition drain_priority ::
  "volume \<Rightarrow> string list \<Rightarrow> bool \<Rightarrow> string \<times> pending list \<Rightarrow> string set \<times> nat \<times> world \<Rightarrow>
   string set \<times> nat \<times> world" where
  "drain_priority vol output_dir temp_state item st =
     (case item of (priority, bucket) \<Rightarrow>
      case st of (copied0, n, w) \<Rightarrow>
        (let (copied1, n1, w1) =
               (if bucket \<noteq> [] then
                  (let (priority_dir, w0) =
                         create_directory_or_file output_dir
                           (''Priority_'' @ upper (drop 1 priority)) w
                   in drain_files vol priority_dir bucket (copied0, n, w0))
                else (copied0, n, w))
         in (copied1, n1,
             (if 0 < n1 then (if \<not> temp_state then save_state copied1 w1 else w1) else w1))))"

fun priorities_loop ::
  "volume \<Rightarrow> string list \<Rightarrow> bool \<Rightarrow> (string \<times> pending list) list \<Rightarrow> string set \<times> nat \<times> world \<Rightarrow>
   string set \<times> nat \<times> world" where
  "priorities_loop vol output_dir temp_state [] st = st"
| "priorities_loop vol output_dir temp_state (item # items) st =
     priorities_loop vol output_dir temp_state items (drain_priority vol output_dir temp_state item st)"

definition copy_other_priorities ::
  "volume \<Rightarrow> (string \<times> pending list) list \<Rightarrow> string list \<Rightarrow> string set \<Rightarrow> bool \<Rightarrow> world \<Rightarrow>
   string set \<times> world" where
  "copy_other_priorities vol lower_priority output_dir copied0 temp_state w =
     (case priorities_loop vol output_dir temp_state lower_priority (copied0, 0, w) of
        (copied1, n, w') \<Rightarrow> (copied1, w'))"

definition copy_non_priority ::
  "volume \<Rightarrow> pending list \<Rightarrow> string list \<Rightarrow> string set \<Rightarrow> bool \<Rightarrow> world \<Rightarrow> string set \<times> world" where
  "copy_non_priority vol non_priority output_dir copied0 temp_state w =
     (let (copied1, n1, w1) =
            (if non_priority \<noteq> [] then
               (let (non_priority_dir, w0) = create_directory_or_file output_dir ''Non-priority'' w
                in drain_files vol non_priority_dir non_priority (copied0, 0, w0))
             else (copied0, 0, w))
      in (copied1,
          (if 0 < n1 then (if \<not> temp_state then save_state copied1 w1 else w1) else w1)))"

section \<open>DriveManager, prompts and main\<close>

text \<open>
  \<open>create_drive_dir\<close>: the directory \<open>Drive_<drive[:-1]>_copy\<close> under the output root. The
  call of \<open>get_disk_space\<close> before it only prints.
\<close>

definition create_drive_dir :: "string list \<Rightarrow> drive \<Rightarrow> world \<Rightarrow> path \<times> world" where
  "create_drive_dir output_dir drv w =
     create_directory_or_file output_dir (''Drive_'' @ butlast (letter drv) @ ''_copy'') w"

text \<open>
  A call of the method \<open>create_state_file(self)\<close> with the extra positional arguments
  \<open>args\<close>: Python raises \<open>TypeError\<close> before the body runs unless there are none.
\<close>

definition call_create_state_file :: "bool list \<Rightarrow> world \<Rightarrow> (string set \<times> world) result" where
  "call_create_state_file args w =
     (if args = [] then Inr (create_state_file w) else Inl (TypeError, w))"

text \<open>The answers typed at the prompts, in the order asked.\<close>

record answers =
  wants_another_dir :: string
  new_output_dir :: "string list"
  wants_cleared_state_file :: string
  wants_temp_state :: string
  disable_priority :: string

text \<open>
  \<open>prompts\<close> returns \<open>(output_dir, wants_priority, wants_temp_state)\<close>. Its last call,
  \<open>set_settings()\<close>, prints the settings and may open them in an editor; the settings of
  the session are loaded already, so it is left out.
\<close>

definition prompts ::
  "settings \<Rightarrow> answers \<Rightarrow> world \<Rightarrow> ((string list \<times> bool \<times> bool) \<times> world) result" where
  "prompts st a w =
     (let output_dir = (if lower (wants_another_dir a) = ''y'' then new_output_dir a
                        else default_output_dir st)
      in case (if wants_cleared_state_file a = ''y'' then call_create_state_file [] w
               else Inr ({}, w)) of
           Inl e \<Rightarrow> Inl e
         | Inr (_, w1) \<Rightarrow>
             (let temp = (lower (wants_temp_state a) = ''y'')
              in case (if temp then call_create_state_file [temp] w1 else Inr ({}, w1)) of
                   Inl e \<Rightarrow> Inl e
                 | Inr (_, w2) \<Rightarrow>
                     Inr ((output_dir,
                           (if enable_priority st then lower (disable_priority a) \<noteq> ''y''
                            else False),
                           temp), w2)))"

text \<open>
  The body of \<open>for drive in removable_drives\<close>. \<open>main\<close> drops the value returned by
  \<open>copy_non_priority\<close>, but the set has been updated in place, so the updated set goes on.
\<close>

definition process_drive ::
  "settings \<Rightarrow> string list \<Rightarrow> string list \<Rightarrow> bool \<Rightarrow> bool \<Rightarrow> drive \<Rightarrow> string set \<times> world \<Rightarrow>
   (string set \<times> world) result" where
  "process_drive st output_dir priority_list wants_priority temp_state drv cw =
     (case cw of (copied0, w) \<Rightarrow>
      (let (current_output_dir, w1) = create_drive_dir output_dir drv w
       in case walk_through_files (disabled_extensions st) drv (dir_of current_output_dir)
                 priority_list copied0 temp_state wants_priority w1 of
            Inl e \<Rightarrow> Inl e
          | Inr (lower_priority, non_priority, copied1, w2) \<Rightarrow>
              if wants_priority then
                (let (copied2, w3) =
                       copy_other_priorities (contents drv) lower_priority
                         (dir_of current_output_dir) copied1 temp_state w2
                 in if \<not> copy_only_priority st
                    then Inr (copy_non_priority (contents drv) non_priority
                                (dir_of current_output_dir) copied2 temp_state w3)
                    else Inr (copied2, w3))
              else Inr (copied1, w2)))"

fun drives_loop ::
  "settings \<Rightarrow> string list \<Rightarrow> string list \<Rightarrow> bool \<Rightarrow> bool \<Rightarrow> drive list \<Rightarrow> string set \<times> world \<Rightarrow>
   (string set \<times> world) result" where
  "drives_loop st output_dir priority_list wants_priority temp_state [] cw = Inr cw"
| "drives_loop st output_dir priority_list wants_priority temp_state (drv # drvs) cw =
     (case process_drive st output_dir priority_list wants_priority temp_state drv cw of
        Inl e \<Rightarrow> Inl e
      | Inr cw' \<Rightarrow> drives_loop st output_dir priority_list wants_priority temp_state drvs cw')"

text \<open>
  \<open>while True\<close>: \<open>polls\<close> lists what \<open>get_removable_drives()\<close> returns call after call.
  The loop ends at the first non-empty answer; \<open>None\<close> says that the program is still
  waiting when the answers listed are used up.
\<close>

fun poll_loop ::
  "settings \<Rightarrow> string list \<Rightarrow> string list \<Rightarrow> bool \<Rightarrow> bool \<Rightarrow> drive list list \<Rightarrow> string set \<times> world \<Rightarrow>
   (string set \<times> world) result option" where
  "poll_loop st output_dir priority_list wants_priority temp_state [] cw = None"
| "poll_loop st output_dir priority_list wants_priority temp_state (removable_drives # later) cw =
     (if removable_drives \<noteq> []
      then Some (drives_loop st output_dir priority_list wants_priority temp_state removable_drives cw)
      else poll_loop st output_dir priority_list wants_priority temp_state later cw)"

text \<open>\<open>main\<close> from line 25 on, once \<open>output_dir\<close>, \<open>wants_priority\<close> and \<open>temp_state\<close> are set.\<close>

definition run_session ::
  "settings \<Rightarrow> string list \<times> bool \<times> bool \<Rightarrow> drive list list \<Rightarrow> world \<Rightarrow>
   (string set \<times> world) result option" where
  "run_session st cfg polls w =
     (case cfg of (output_dir, wants_priority, temp_state) \<Rightarrow>
        (let priority_list = (if wants_priority then get_priority_list st else []);
             (copied0, w1) = (if \<not> temp_state then get_copied w else ({}, w))
         in poll_loop st output_dir priority_list wants_priority temp_state polls (copied0, w1)))"

definition main ::
  "settings \<Rightarrow> answers \<Rightarrow> drive list list \<Rightarrow> world \<Rightarrow> (string set \<times> world) result option" where
  "main st a polls w =
     (case (if \<not> skip_prompts st then prompts st a w
            else Inr ((default_output_dir st, enable_priority st, False), w)) of
        Inl e \<Rightarrow> Some (Inl e)
      | Inr (cfg, w1) \<Rightarrow> run_session st cfg polls w1)"

section \<open>The classifier as the specification words it\<close>

datatype tier_class = Tier nat | NonPriority | Disabled

fun index_of :: "'a \<Rightarrow> 'a list \<Rightarrow> nat" where
  "index_of x [] = 0"
| "index_of x (y # ys) = (if x = y then 0 else Suc (index_of x ys))"

text \<open>
  Rules (a) to (e) of the Priority Classifier, in the order the specification gives them.
\<close>

definition classify :: "string \<Rightarrow> string list \<Rightarrow> string set \<Rightarrow> bool \<Rightarrow> tier_class" where
  "classify extension priority_list disabled_set routing_enabled =
     (if \<not> routing_enabled then (if extension \<in> disabled_set then Disabled else NonPriority)
      else if priority_list \<noteq> [] \<and> extension = priority_list ! 0 then Tier 0
      else if extension \<in> set (drop 1 priority_list) then Tier (index_of extension priority_list)
      else if extension \<in> disabled_set then Disabled
      else NonPriority)"

text \<open>
  What a branch of the scan means as a class: the first priority is tier 0, a queued file
  has the tier of its bucket, counted in the order in which the buckets are drained.
\<close>

definition class_of_route :: "string list \<Rightarrow> string \<Rightarrow> route \<Rightarrow> tier_class" where
  "class_of_route priority_list extension r =
     (case r of
        Copy_first_priority \<Rightarrow> Tier 0
      | Queue_lower_priority \<Rightarrow>
          Tier (Suc (index_of extension (map fst (dict_init (drop 1 priority_list)))))
      | Queue_non_priority \<Rightarrow> NonPriority
      | Copy_all_files \<Rightarrow> NonPriority
      | Skip_disabled \<Rightarrow> Disabled)"

section \<open>Observations on the console\<close>

fun is_saved :: "event \<Rightarrow> bool" where
  "is_saved (Saved _) = True"
| "is_saved _ = False"

definition saves :: "event list \<Rightarrow> nat" where
  "saves evs = length (filter is_saved evs)"

text \<open>The calls of \<open>copy2\<close>, successful or not.\<close>

definition copy_calls :: "event list \<Rightarrow> nat" where
  "copy_calls evs = length (filter (\<lambda>e. \<not> is_saved e) evs)"

text \<open>A file the scan cannot fingerprint: it is gone, or it cannot be opened.\<close>

definition unreadable :: "volume \<Rightarrow> path \<Rightarrow> bool" where
  "unreadable vol p = (case vol p of None \<Rightarrow> True | Some f \<Rightarrow> \<not> readable f)"

text \<open>The checksum the scan computes for a file: \<open>get_file_size\<close>, then \<open>get_checksum\<close>.\<close>

definition fingerprint :: "volume \<Rightarrow> path \<Rightarrow> error + string" where
  "fingerprint vol p =
     (case get_file_size vol p of Inl e \<Rightarrow> Inl e | Inr file_size \<Rightarrow> get_checksum vol p file_size)"

text \<open>The checksums waiting in the buckets of the lower priorities.\<close>

definition queued :: "(string \<times> pending list) list \<Rightarrow> string set" where
  "queued d = {cs. \<exists>k b. map_of d k = Some b \<and> cs \<in> fst ` set b}"

text \<open>
  A branch after which a file is never handed to \<open>copy_file\<close>: it is disabled, or it is
  not prioritized while only priority files are copied.
\<close>

definition parked :: "settings \<Rightarrow> route \<Rightarrow> bool" where
  "parked st r = (r = Skip_disabled \<or> (r = Queue_non_priority \<and> copy_only_priority st))"

text \<open>
  A drive is settled for a set of fingerprints when each of its files can be
  fingerprinted and is either in the set or parked.
\<close>

definition settled :: "settings \<Rightarrow> string list \<Rightarrow> bool \<Rightarrow> string set \<Rightarrow> drive \<Rightarrow> bool" where
  "settled st priority_list wants_priority c drv =
     list_all (\<lambda>p. case fingerprint (contents drv) p of
                      Inl e \<Rightarrow> False
                    | Inr cs \<Rightarrow> cs \<in> c \<or>
                        parked st (route priority_list wants_priority (disabled_extensions st)
                                     (lower (suffix (name_of p)))))
       (walk_files (listing drv))"

text \<open>
  How the state of a scan moves from one file to the next: the state file and the
  unwritable paths stay, the copied set and the buckets only grow, and the copied set
  grows only when the counter does. A file of branch \<open>r\<close> with checksum \<open>cs\<close> is covered when
  the checksum is copied or waits in the bucket of its branch, or the file is disabled.
\<close>

definition grows :: "scan \<Rightarrow> scan \<Rightarrow> bool" where
  "grows s s' =
     (state_file (env s') = state_file (env s) \<and>
      unwritable (env s') = unwritable (env s) \<and>
      copied s \<subseteq> copied s' \<and>
      number_of_copied s \<le> number_of_copied s' \<and>
      (number_of_copied s' = number_of_copied s \<longrightarrow> copied s' = copied s) \<and>
      queued (lower_priority_files s) \<subseteq> queued (lower_priority_files s') \<and>
      set (non_priority_files s) \<subseteq> set (non_priority_files s'))"

definition covered :: "route \<Rightarrow> scan \<Rightarrow> string \<Rightarrow> bool" where
  "covered r s cs =
     (cs \<in> copied s \<or>
      (r = Queue_lower_priority \<and> cs \<in> queued (lower_priority_files s)) \<or>
      (r = Queue_non_priority \<and> cs \<in> fst ` set (non_priority_files s)) \<or>
      r = Skip_disabled)"

text \<open>The world a run leaves behind, whether it ends with an error or not.\<close>

definition world_after :: "(string set \<times> world) result option \<Rightarrow> world \<Rightarrow> world" where
  "world_after r w =
     (case r of None \<Rightarrow> w | Some (Inl (e, w')) \<Rightarrow> w' | Some (Inr (c, w')) \<Rightarrow> w')"

text \<open>The name \<open>copy_file\<close> falls back to when the destination exists.\<close>

definition fallback :: "path \<Rightarrow> path" where
  "fallback p = with_name p (stem (name_of p) @ ''_copy'' @ suffix (name_of p))"

text \<open>The scan record \<open>walk_through_files\<close> starts from.\<close>

definition scan_start :: "string list \<Rightarrow> string set \<Rightarrow> world \<Rightarrow> scan" where
  "scan_start priority_list copied0 w =
     \<lparr>lower_priority_files = dict_init (drop 1 priority_list), non_priority_files = [],
      copied = copied0, number_of_copied = 0, env = w\<rparr>"






section \<open>Concrete inputs\<close>

text \<open>The settings template of \<open>SettingsManager\<close>, with prompts skipped.\<close>

definition template_settings :: settings where
  "template_settings =
     \<lparr>prioritized_file_extensions = [''.jpg'', ''.txt''],
      disabled_file_extensions = [''.mov'', ''.mp4''],
      default_output_dir = [''out''],
      copy_only_priority = False,
      skip_prompts = True,
      enable_priority = True\<rparr>"

definition fresh_world :: world where
  "fresh_world = \<lparr>files = Map.empty, unwritable = {}, state_file = Missing, console = []\<rparr>"

definition small_file :: srcfile where
  "small_file = \<lparr>data = [1, 2, 3], readable = True\<rparr>"

definition locked_file :: srcfile where
  "locked_file = \<lparr>data = [4, 5], readable = False\<rparr>"

text \<open>A file of exactly 100 MiB.\<close>

definition big_file :: srcfile where
  "big_file = \<lparr>data = replicate (100 * MiB) 0, readable = True\<rparr>"

text \<open>Two text files with the same content under different names.\<close>

definition twin_drive :: drive where
  "twin_drive =
     \<lparr>letter = ''E:'',
      listing = [([''E:''], [''a.txt'', ''b.txt''])],
      contents = [([''E:''], ''a.txt'') \<mapsto> small_file, ([''E:''], ''b.txt'') \<mapsto> small_file]\<rparr>"

text \<open>One picture.\<close>

definition jpg_drive :: drive where
  "jpg_drive =
     \<lparr>letter = ''E:'',
      listing = [([''E:''], [''x.jpg''])],
      contents = [([''E:''], ''x.jpg'') \<mapsto> small_file]\<rparr>"

text \<open>An unreadable picture, listed before or after a readable one.\<close>

definition locked_first_drive :: drive where
  "locked_first_drive =
     \<lparr>letter = ''E:'',
      listing = [([''E:''], [''bad.jpg'', ''good.jpg''])],
      contents = [([''E:''], ''bad.jpg'') \<mapsto> locked_file, ([''E:''], ''good.jpg'') \<mapsto> small_file]\<rparr>"

definition locked_last_drive :: drive where
  "locked_last_drive =
     \<lparr>letter = ''E:'',
      listing = [([''E:''], [''good.jpg'', ''bad.jpg''])],
      contents = [([''E:''], ''good.jpg'') \<mapsto> small_file, ([''E:''], ''bad.jpg'') \<mapsto> locked_file]\<rparr>"

definition x_jpg :: path where
  "x_jpg = ([''out'', ''Drive_E_copy'', ''Priority_jpg''], ''x.jpg'')"

definition x_copy_jpg :: path where
  "x_copy_jpg = ([''out'', ''Drive_E_copy'', ''Priority_jpg''], ''x_copy.jpg'')"

text \<open>A destination tree in which \<open>Priority_jpg/x.jpg\<close> is there already.\<close>

definition taken_world :: world where
  "taken_world = fresh_world\<lparr>files := [x_jpg \<mapsto> File [9]]\<rparr>"

text \<open>Two pictures of the same name and different content, in two directories.\<close>

definition two_sources :: volume where
  "two_sources =
     [([''E:'', ''a''], ''x.jpg'') \<mapsto> \<lparr>data = [1], readable = True\<rparr>,
      ([''E:'', ''b''], ''x.jpg'') \<mapsto> \<lparr>data = [2], readable = True\<rparr>]"


definition locked_world :: world where
  "locked_world = fresh_world\<lparr>unwritable := {x_jpg}\<rparr>"


text \<open>Two files that are not prioritized, with different content.\<close>

definition mixed_drive :: drive where
  "mixed_drive =
     \<lparr>letter = ''E:'',
      listing = [([''E:''], [''a.png'', ''b.doc''])],
      contents = [([''E:''], ''a.png'') \<mapsto> \<lparr>data = [1], readable = True\<rparr>,
                  ([''E:''], ''b.doc'') \<mapsto> \<lparr>data = [2], readable = True\<rparr>]\<rparr>"

text \<open>The user answers \<open>y\<close> to the question about an empty state for this session.\<close>

definition temp_answers :: answers where
  "temp_answers =
     \<lparr>wants_another_dir = ''n'',
      new_output_dir = [],
      wants_cleared_state_file = ''n'',
      wants_temp_state = ''y'',
      disable_priority = ''n''\<rparr>"

text \<open>An extension that is both prioritized and disabled.\<close>

definition overlap_settings :: settings where
  "overlap_settings = template_settings\<lparr>prioritized_file_extensions := [''.jpg'', ''.MOV'']\<rparr>"

text \<open>Three lower tiers, the second of which has one file queued.\<close>

definition two_tiers :: "(string \<times> pending list) list" where
  "two_tiers = [(''.txt'', []), (''.png'', [(''fp'', ([''E:''], ''a.png''), 3)]), (''.doc'', [])]"

text \<open>A picture whose copy is refused, listed before an unreadable one.\<close>

definition locked_pair_drive :: drive where
  "locked_pair_drive =
     \<lparr>letter = ''E:'',
      listing = [([''E:''], [''x.jpg'', ''bad.jpg''])],
      contents = [([''E:''], ''x.jpg'') \<mapsto> small_file, ([''E:''], ''bad.jpg'') \<mapsto> locked_file]\<rparr>"

text \<open>What is seen of a run: the error or the copied set, the console, the state file.\<close>

definition observe ::
  "(string set \<times> world) result option \<Rightarrow>
   ((error \<times> event list \<times> state_json) + (string set \<times> event list \<times> state_json)) option" where
  "observe r =
     map_option (map_sum (\<lambda>(e, w). (e, console w, state_file w))
                         (\<lambda>(c, w). (c, console w, state_file w))) r"

section \<open>Unfolding the model on concrete inputs\<close>

lemmas path_defs = dir_of_def pjoin_def name_of_def with_name_def suffix_def stem_def
lemmas str_defs = lower_def upper_def lower_char_def upper_char_def upper_letters_def lower_letters_def
lemmas fm_defs = exists_path_def copy2_def copy_target_def copy_file_def get_file_size_def
  get_checksum_def mkdir_parents_def create_directory_or_file_def MiB_def
lemmas sm_defs = is_extension_valid_def get_priority_list_def disabled_extensions_def
  create_state_file_def get_copied_def save_state_def
lemmas cm_defs = set_add_def dict_set_def dict_init_def bucket_add_def route_def visit_file_def
  walk_files_def walk_through_files_def drain_priority_def copy_other_priorities_def
  copy_non_priority_def create_drive_dir_def process_drive_def run_session_def
lemmas ex_defs = template_settings_def fresh_world_def small_file_def
lemmas eval_defs = path_defs str_defs fm_defs sm_defs cm_defs ex_defs observe_def Let_def

section \<open>Fingerprints and file names\<close>

text \<open>Known answers of XXH64 with seed 0: the empty input and the three bytes \<open>abc\<close>.\<close>

lemma xxh64_known_answers:
  "hexdigest (xxh64 []) = ''ef46db3751d8e999'' \<and>
   hexdigest (xxh64 [0x61, 0x62, 0x63]) = ''44bc2cf5ad770999''"
  by code_simp

lemma length_hexdigest: "length (hexdigest h) = 16"
  by (simp add: hexdigest_def)

lemma stem_suffix: "stem n @ suffix n = n"
  by (simp add: stem_def suffix_def split: option.split)

lemma fallback_neq: "fallback p \<noteq> p"
proof
  assume "fallback p = p"
  then have "stem (snd p) @ ''_copy'' @ suffix (snd p) = snd p"
    by (simp add: fallback_def with_name_def name_of_def prod_eq_iff)
  then have "length (stem (snd p) @ ''_copy'' @ suffix (snd p)) = length (stem (snd p) @ suffix (snd p))"
    by (simp only: stem_suffix)
  then show False by simp
qed

text \<open>
  Claim C4. A readable file whose size is below 100 MiB gets the hash of its whole content,
  tagged \<open>_xxh64\<close>; from 100 MiB on it gets the hash of its first 5 MiB followed by its
  last 5 MiB, tagged \<open>_partial_xxh64\<close>. A file of exactly 100 MiB takes the partial
  method, and no full-mode fingerprint equals a partial-mode one.
\<close>

theorem fingerprint_by_size:
  "vol p = Some f \<Longrightarrow> readable f \<Longrightarrow>
     (file_size < 100 * MiB \<longrightarrow>
        get_checksum vol p file_size = Inr (hexdigest (xxh64 (data f)) @ ''_xxh64'')) \<and>
     (100 * MiB \<le> file_size \<and> 5 * MiB \<le> length (data f) \<longrightarrow>
        get_checksum vol p file_size =
          Inr (hexdigest (xxh64 (take (5 * MiB) (data f) @
                 drop (length (data f) - 5 * MiB) (data f))) @ ''_partial_xxh64'')) \<and>
     (length (data f) = 100 * MiB \<longrightarrow>
        get_file_size vol p = Inr (100 * MiB) \<and>
        get_checksum vol p (100 * MiB) =
          Inr (hexdigest (xxh64 (take (5 * MiB) (data f) @ drop (95 * MiB) (data f))) @
               ''_partial_xxh64'')) \<and>
     hexdigest h @ ''_xxh64'' \<noteq> hexdigest h' @ ''_partial_xxh64''"
proof (intro conjI impI)
  assume v: "vol p = Some f" and r: "readable f"
  show "hexdigest h @ ''_xxh64'' \<noteq> hexdigest h' @ ''_partial_xxh64''"
  proof
    assume "hexdigest h @ ''_xxh64'' = hexdigest h' @ ''_partial_xxh64''"
    then have "length (hexdigest h @ ''_xxh64'') = length (hexdigest h' @ ''_partial_xxh64'')"
      by (rule arg_cong)
    then show False by (simp add: length_hexdigest)
  qed
  { assume "file_size < 100 * MiB"
    with v r show "get_checksum vol p file_size = Inr (hexdigest (xxh64 (data f)) @ ''_xxh64'')"
      by (simp add: get_checksum_def) }
  { assume "100 * MiB \<le> file_size \<and> 5 * MiB \<le> length (data f)"
    with v r show "get_checksum vol p file_size =
          Inr (hexdigest (xxh64 (take (5 * MiB) (data f) @
                 drop (length (data f) - 5 * MiB) (data f))) @ ''_partial_xxh64'')"
      by (simp add: get_checksum_def) }
  { assume l: "length (data f) = 100 * MiB"
    with v show "get_file_size vol p = Inr (100 * MiB)"
      by (simp add: get_file_size_def)
    from l have "length (data f) - 5 * MiB = 95 * MiB" by simp
    with v r l show "get_checksum vol p (100 * MiB) =
          Inr (hexdigest (xxh64 (take (5 * MiB) (data f) @ drop (95 * MiB) (data f))) @
               ''_partial_xxh64'')"
      by (simp add: get_checksum_def MiB_def) }
qed

theorem fingerprint_by_size_witness:
  "get_checksum [([''E:''], ''x.jpg'') \<mapsto> small_file] ([''E:''], ''x.jpg'') 3 =
     Inr (hexdigest (xxh64 [1, 2, 3]) @ ''_xxh64'') \<and>
   get_checksum [([''E:''], ''x.jpg'') \<mapsto> big_file] ([''E:''], ''x.jpg'') (100 * MiB) =
     Inr (hexdigest (xxh64 (replicate (5 * MiB) 0 @ replicate (5 * MiB) 0)) @ ''_partial_xxh64'')"
proof -
  have s: "[([''E:''], ''x.jpg'') \<mapsto> small_file] ([''E:''], ''x.jpg'') = Some small_file" by simp
  have b: "[([''E:''], ''x.jpg'') \<mapsto> big_file] ([''E:''], ''x.jpg'') = Some big_file" by simp
  have rs: "readable small_file" by (simp add: small_file_def)
  have rb: "readable big_file" by (simp add: big_file_def)
  from fingerprint_by_size [of "[([''E:''], ''x.jpg'') \<mapsto> small_file]" "([''E:''], ''x.jpg'')" small_file 3] s rs
  have 1: "get_checksum [([''E:''], ''x.jpg'') \<mapsto> small_file] ([''E:''], ''x.jpg'') 3 =
     Inr (hexdigest (xxh64 [1, 2, 3]) @ ''_xxh64'')"
    by (simp add: small_file_def MiB_def)
  have lb: "length (data big_file) = 100 * MiB" by (simp add: big_file_def)
  from fingerprint_by_size [of "[([''E:''], ''x.jpg'') \<mapsto> big_file]" "([''E:''], ''x.jpg'')" big_file "100 * MiB"] b rb lb
  have 2: "get_checksum [([''E:''], ''x.jpg'') \<mapsto> big_file] ([''E:''], ''x.jpg'') (100 * MiB) =
     Inr (hexdigest (xxh64 (take (5 * MiB) (data big_file) @ drop (95 * MiB) (data big_file))) @ ''_partial_xxh64'')"
    by (simp add: MiB_def)
  have "take (5 * MiB) (data big_file) = replicate (5 * MiB) 0" 
    by (simp add: big_file_def MiB_def)
  moreover have "drop (95 * MiB) (data big_file) = replicate (5 * MiB) 0" 
    by (simp add: big_file_def MiB_def)
  ultimately show ?thesis using 1 2 by simp
qed

text \<open>
  Claim C10. When the destination and the \<open>_copy\<close> name both exist, \<open>copy_file\<close> still
  picks the \<open>_copy\<close> name, without looking whether it is taken, and a successful copy
  replaces the file that was there; the file at the destination itself is untouched.
\<close>

theorem fallback_name_not_checked:
  "exists_path w dst \<Longrightarrow> files w (fallback dst) = Some (File old) \<Longrightarrow>
   vol src = Some f \<Longrightarrow> readable f \<Longrightarrow> fallback dst \<notin> unwritable w \<Longrightarrow>
     copy_target w dst = fallback dst \<and>
     files (copy_file vol src dst w) (fallback dst) = Some (File (data f)) \<and>
     files (copy_file vol src dst w) dst = files w dst \<and>
     console (copy_file vol src dst w) = console w @ [Copying src (fallback dst)]"
  using fallback_neq [of dst]
  by (auto simp add: copy_file_def copy_target_def copy2_def fallback_def Let_def)

theorem fallback_name_not_checked_witness:
  "exists_path (taken_world\<lparr>files := (files taken_world)(x_copy_jpg \<mapsto> File [7])\<rparr>) x_jpg \<and>
   files (taken_world\<lparr>files := (files taken_world)(x_copy_jpg \<mapsto> File [7])\<rparr>) x_copy_jpg = Some (File [7]) \<and>
   files (copy_file two_sources ([''E:'', ''a''], ''x.jpg'') x_jpg
           (taken_world\<lparr>files := (files taken_world)(x_copy_jpg \<mapsto> File [7])\<rparr>)) x_copy_jpg = Some (File [1])"
proof -
  let ?w = "taken_world\<lparr>files := (files taken_world)(x_copy_jpg \<mapsto> File [7])\<rparr>"
  have fb: "fallback x_jpg = x_copy_jpg"
    by (simp add: fallback_def x_jpg_def x_copy_jpg_def with_name_def name_of_def stem_def suffix_def)
  have e: "exists_path ?w x_jpg"
    by (simp add: exists_path_def taken_world_def x_jpg_def x_copy_jpg_def)
  have o: "files ?w (fallback x_jpg) = Some (File [7])" by (simp add: fb)
  have s: "two_sources ([''E:'', ''a''], ''x.jpg'') = Some \<lparr>data = [1], readable = True\<rparr>"
    by (simp add: two_sources_def)
  have u: "fallback x_jpg \<notin> unwritable ?w" by (simp add: taken_world_def fresh_world_def)
  from fallback_name_not_checked [of ?w x_jpg "[7]" two_sources "([''E:'', ''a''], ''x.jpg'')"
      "\<lparr>data = [1], readable = True\<rparr>"] e o s u fb
  show ?thesis by simp
qed

section \<open>The priority classifier\<close>

lemma lower_char_idem: "lower_char (lower_char c) = lower_char c"
  by (simp add: lower_char_def upper_letters_def lower_letters_def)

lemma lower_idem: "lower (lower s) = lower s"
  by (simp add: lower_def lower_char_idem)

lemma priority_loop_props:
  "distinct acc \<Longrightarrow> seen = set acc \<Longrightarrow>
     distinct (priority_loop es seen acc) \<and>
     set (priority_loop es seen acc) =
       set acc \<union> {lower x |x. x \<in> set es \<and> is_extension_valid (lower x)}"
proof (induction es arbitrary: seen acc)
  case Nil
  then show ?case by simp
next
  case (Cons e es)
  show ?case
  proof (cases "is_extension_valid (lower e) \<and> lower e \<notin> seen")
    case True
    with Cons.prems have d: "distinct (acc @ [lower e])" and s: "insert (lower e) seen = set (acc @ [lower e])"
      by auto
    from Cons.IH [OF d s] True show ?thesis by (auto simp add: Let_def)
  next
    case False
    with Cons.IH [OF Cons.prems] Cons.prems show ?thesis by (auto simp add: Let_def)
  qed
qed

lemma distinct_get_priority_list: "distinct (get_priority_list st)"
  using priority_loop_props [of "[]" "{}"] by (simp add: get_priority_list_def)

lemma set_get_priority_list:
  "set (get_priority_list st) =
     {lower x |x. x \<in> set (prioritized_file_extensions st) \<and> is_extension_valid (lower x)}"
  using priority_loop_props [of "[]" "{}" "prioritized_file_extensions st"]
  by (simp add: get_priority_list_def)

lemma lower_get_priority_list: "e \<in> set (get_priority_list st) \<Longrightarrow> lower e = e"
  by (auto simp add: set_get_priority_list lower_idem)

lemma dict_set_keys:
  "map fst (dict_set d k v) = (if k \<in> set (map fst d) then map fst d else map fst d @ [k])"
  by (induction d) (auto simp add: dict_set_def split: prod.splits)

lemma dict_fold_keys:
  "distinct ks \<Longrightarrow> set ks \<inter> set (map fst d) = {} \<Longrightarrow>
     map fst (fold (\<lambda>priority d. dict_set d priority []) ks d) = map fst d @ ks"
proof (induction ks arbitrary: d)
  case Nil
  then show ?case by simp
next
  case (Cons k ks)
  from Cons.prems have k: "k \<notin> set (map fst d)" by auto
  then have m: "map fst (dict_set d k []) = map fst d @ [k]"
    by (simp only: dict_set_keys if_False)
  from Cons.prems have "distinct ks" and "set ks \<inter> set (map fst (dict_set d k [])) = {}"
    by (auto simp add: m)
  from Cons.IH [OF this] m show ?case by simp
qed

lemma dict_init_keys: "distinct ks \<Longrightarrow> map fst (dict_init ks) = ks"
  using dict_fold_keys [of ks "[]"] by (simp add: dict_init_def)

lemma index_of_nth: "x \<in> set xs \<Longrightarrow> index_of x xs < length xs \<and> xs ! index_of x xs = x"
  by (induction xs) auto

lemma route_class_enabled:
  assumes d: "distinct pl" and l: "\<forall>e \<in> set pl. lower e = e" and ne: "pl \<noteq> []"
  shows "class_of_route pl e (route pl True dis e) = classify e pl dis True"
proof -
  from ne obtain p ps where pl: "pl = p # ps" by (cases pl) auto
  from l pl have lp: "lower p = p" by simp
  from d pl have dps: "distinct ps" and pps: "p \<notin> set ps" by auto
  show ?thesis
  proof (cases "e = p")
    case True
    then show ?thesis by (simp add: pl lp route_def class_of_route_def classify_def)
  next
    case False
    then show ?thesis
      by (simp add: pl lp route_def class_of_route_def classify_def dict_init_keys [OF dps])
  qed
qed

lemma route_class_disabled:
  "class_of_route pl e (route [] wants dis e) = classify e pl' dis False"
  by (simp add: route_def class_of_route_def classify_def)

lemma route_class_empty:
  "class_of_route [] e (route [] wants dis e) = classify e [] dis wants"
  by (simp add: route_def class_of_route_def classify_def)

text \<open>
  Claim C5. The branch the scan takes for an extension is the class the rules (a) to (e)
  give it: without priority routing a file is NonPriority unless its extension is disabled;
  with it, the first entry of the priority list is tier 0, any other entry has its own
  tier, then comes the disabled set, and the rest is NonPriority. An extension that is
  both prioritized and disabled gets its tier, and a file matches an entry of the
  settings when the lower-case forms agree.
\<close>

theorem route_follows_classifier:
  "class_of_route (if wants_priority then get_priority_list st else []) e
     (route (if wants_priority then get_priority_list st else []) wants_priority
        (disabled_extensions st) e) =
     classify e (get_priority_list st) (disabled_extensions st) wants_priority \<and>
   (wants_priority \<and> e \<in> set (get_priority_list st) \<and> e \<in> disabled_extensions st \<longrightarrow>
      (\<exists>k < length (get_priority_list st).
         get_priority_list st ! k = e \<and>
         classify e (get_priority_list st) (disabled_extensions st) wants_priority = Tier k)) \<and>
   (lower (suffix name) \<in> set (get_priority_list st) \<longleftrightarrow>
      (\<exists>x \<in> set (prioritized_file_extensions st).
         lower x = lower (suffix name) \<and> is_extension_valid (lower x))) \<and>
   (lower (suffix name) \<in> disabled_extensions st \<longleftrightarrow>
      (\<exists>x \<in> set (disabled_file_extensions st). lower x = lower (suffix name)))"
proof (intro conjI)
  let ?pl = "get_priority_list st"
  have l: "\<forall>e \<in> set ?pl. lower e = e" by (simp add: lower_get_priority_list)
  show "class_of_route (if wants_priority then ?pl else []) e
     (route (if wants_priority then ?pl else []) wants_priority (disabled_extensions st) e) =
     classify e ?pl (disabled_extensions st) wants_priority"
  proof (cases wants_priority)
    case False
    then show ?thesis using route_class_disabled [of "[]" e False "disabled_extensions st" ?pl] by simp
  next
    case True
    show ?thesis
    proof (cases "?pl = []")
      case True
      with \<open>wants_priority\<close> show ?thesis using route_class_empty [of e True] by simp
    next
      case False
      with \<open>wants_priority\<close> show ?thesis
        using route_class_enabled [OF distinct_get_priority_list l False] by simp
    qed
  qed
  show "wants_priority \<and> e \<in> set ?pl \<and> e \<in> disabled_extensions st \<longrightarrow>
      (\<exists>k < length ?pl. ?pl ! k = e \<and> classify e ?pl (disabled_extensions st) wants_priority = Tier k)"
  proof
    assume a: "wants_priority \<and> e \<in> set ?pl \<and> e \<in> disabled_extensions st"
    then have m: "e \<in> set ?pl" by simp
    then have ne: "?pl \<noteq> []" by auto
    from index_of_nth [OF m] have i: "index_of e ?pl < length ?pl" "?pl ! index_of e ?pl = e" by auto
    have "classify e ?pl (disabled_extensions st) wants_priority = Tier (index_of e ?pl)"
    proof (cases "e = ?pl ! 0")
      case True
      with ne have "index_of e ?pl = 0" by (cases ?pl) auto
      with True a ne show ?thesis by (simp add: classify_def)
    next
      case False
      with m ne have "e \<in> set (drop 1 ?pl)" by (cases ?pl) auto
      with False a show ?thesis by (simp add: classify_def)
    qed
    with i show "\<exists>k < length ?pl. ?pl ! k = e \<and> classify e ?pl (disabled_extensions st) wants_priority = Tier k"
      by blast
  qed
  show "lower (suffix name) \<in> set ?pl \<longleftrightarrow>
      (\<exists>x \<in> set (prioritized_file_extensions st).
         lower x = lower (suffix name) \<and> is_extension_valid (lower x))"
    unfolding set_get_priority_list by (simp, metis)
  show "lower (suffix name) \<in> disabled_extensions st \<longleftrightarrow>
      (\<exists>x \<in> set (disabled_file_extensions st). lower x = lower (suffix name))"
    unfolding disabled_extensions_def by (simp add: image_iff, metis)
qed

theorem route_follows_classifier_witness:
  "lower (suffix ''clip.Mov'') \<in> set (get_priority_list overlap_settings) \<and>
   lower (suffix ''clip.Mov'') \<in> disabled_extensions overlap_settings \<and>
   route (get_priority_list overlap_settings) True (disabled_extensions overlap_settings)
     (lower (suffix ''clip.Mov'')) = Queue_lower_priority \<and>
   classify (lower (suffix ''clip.Mov'')) (get_priority_list overlap_settings)
     (disabled_extensions overlap_settings) True = Tier 1"
proof -
  have e: "lower (suffix ''clip.Mov'') = ''.mov''"
    by (simp add: suffix_def str_defs)
  have p: "get_priority_list overlap_settings = [''.jpg'', ''.mov'']"
    by (simp add: get_priority_list_def overlap_settings_def template_settings_def
        is_extension_valid_def str_defs)
  have d: "disabled_extensions overlap_settings = {''.mov'', ''.mp4''}"
    by (simp add: disabled_extensions_def overlap_settings_def template_settings_def str_defs)
  have r: "route [''.jpg'', ''.mov''] True {''.mov'', ''.mp4''} ''.mov'' = Queue_lower_priority"
    by (simp add: route_def str_defs)
  from route_follows_classifier [of True overlap_settings "''.mov''" "''clip.Mov''"]
  show ?thesis
    by (simp add: e p d r class_of_route_def dict_init_def dict_set_def)
qed

section \<open>Runs on concrete inputs\<close>

text \<open>
  Claim C1, at a failing input. Two files with the same fingerprint that are both queued
  for priority 2 during one scan are both copied by the drain.
\<close>

theorem twins_both_copied:
  "observe (run_session template_settings ([''out''], True, False) [[twin_drive]] fresh_world) =
     Some (Inr ({hexdigest (xxh64 [1, 2, 3]) @ ''_xxh64''},
                [Copying ([''E:''], ''a.txt'') ([''out'', ''Drive_E_copy'', ''Priority_TXT''], ''a.txt''),
                 Copying ([''E:''], ''b.txt'') ([''out'', ''Drive_E_copy'', ''Priority_TXT''], ''b.txt''),
                 Saved {hexdigest (xxh64 [1, 2, 3]) @ ''_xxh64''}],
                Valid {hexdigest (xxh64 [1, 2, 3]) @ ''_xxh64''}))"
  by (simp add: eval_defs twin_drive_def)

text \<open>
  Claim C7, at a failing input. Answering \<open>y\<close> to the question about an empty state makes
  \<open>prompts\<close> call \<open>create_state_file\<close> with an argument it does not take: the program stops
  with \<open>TypeError\<close> before any drive is looked at.
\<close>

theorem temp_state_prompt_raises:
  "observe (main (template_settings\<lparr>skip_prompts := False\<rparr>) temp_answers [[jpg_drive]] fresh_world) =
     Some (Inl (TypeError, [], Missing))"
  by (simp add: eval_defs main_def prompts_def call_create_state_file_def temp_answers_def)

text \<open>
  Claim C8, at a failing input. \<open>Priority_jpg/x.jpg\<close> is there already; two pictures named
  \<open>x.jpg\<close> with different content are copied one after the other. Both land on
  \<open>x_copy.jpg\<close>, and the second replaces the first.
\<close>

theorem second_collision_overwrites_first:
  "files (copy_file two_sources ([''E:'', ''a''], ''x.jpg'') x_jpg taken_world) x_copy_jpg = Some (File [1]) \<and>
   files (copy_file two_sources ([''E:'', ''b''], ''x.jpg'') x_jpg
           (copy_file two_sources ([''E:'', ''a''], ''x.jpg'') x_jpg taken_world)) x_copy_jpg = Some (File [2]) \<and>
   console (copy_file two_sources ([''E:'', ''b''], ''x.jpg'') x_jpg
           (copy_file two_sources ([''E:'', ''a''], ''x.jpg'') x_jpg taken_world)) =
     [Copying ([''E:'', ''a''], ''x.jpg'') x_copy_jpg, Copying ([''E:'', ''b''], ''x.jpg'') x_copy_jpg]"
  by (simp add: eval_defs taken_world_def two_sources_def x_jpg_def x_copy_jpg_def)

section \<open>What the file operations leave alone\<close>

lemma copy2_frame:
  "copy2 vol src dst w = Inr w' \<Longrightarrow>
     console w' = console w \<and> state_file w' = state_file w \<and> unwritable w' = unwritable w"
  by (auto simp add: copy2_def Let_def split: option.splits if_splits)

lemma copy_file_frame:
  "state_file (copy_file vol old new w) = state_file w \<and>
   unwritable (copy_file vol old new w) = unwritable w \<and>
   saves (console (copy_file vol old new w)) = saves (console w) \<and>
   copy_calls (console (copy_file vol old new w)) = Suc (copy_calls (console w))"
  by (auto simp add: copy_file_def Let_def saves_def copy_calls_def split: sum.splits dest: copy2_frame)

lemma mkdir_frame:
  "state_file (mkdir_parents p w) = state_file w \<and> unwritable (mkdir_parents p w) = unwritable w \<and>
   console (mkdir_parents p w) = console w"
  by (simp add: mkdir_parents_def)

lemma create_directory_frame:
  "create_directory_or_file out n w = (d, w') \<Longrightarrow>
     d = (out, n) \<and> state_file w' = state_file w \<and> unwritable w' = unwritable w \<and> console w' = console w"
  by (auto simp add: create_directory_or_file_def Let_def mkdir_frame split: if_splits)

lemma drain_files_frame:
  "drain_files vol dir rs (c, n, w) = (c', n', w') \<Longrightarrow>
     c' = c \<union> fst ` set rs \<and> n' = n + length rs \<and>
     state_file w' = state_file w \<and> unwritable w' = unwritable w \<and>
     saves (console w') = saves (console w) \<and>
     copy_calls (console w') = copy_calls (console w) + length rs"
proof (induction rs arbitrary: c n w)
  case Nil
  then show ?case by simp
next
  case (Cons r rs)
  obtain cs old size where r: "r = (cs, old, size)" by (cases r) auto
  from Cons.prems have "drain_files vol dir rs (insert cs c, Suc n, copy_file vol old (pjoin dir (name_of old)) w) = (c', n', w')"
    by (simp add: r)
  from Cons.IH [OF this] show ?case
    by (simp add: r copy_file_frame)
qed

lemma save_state_frame:
  "state_file (save_state c w) = Valid c \<and> unwritable (save_state c w) = unwritable w \<and>
   saves (console (save_state c w)) = Suc (saves (console w)) \<and>
   copy_calls (console (save_state c w)) = copy_calls (console w) \<and>
   files (save_state c w) = files w"
  by (simp add: save_state_def saves_def copy_calls_def)

lemma drain_priority_result:
  "drain_priority vol out temp (p, bucket) (c, n, w) = (c', n', w') \<Longrightarrow>
     c' = c \<union> fst ` set bucket \<and> n' = n + length bucket \<and>
     unwritable w' = unwritable w \<and>
     copy_calls (console w') = copy_calls (console w) + length bucket \<and>
     saves (console w') = saves (console w) + (if 0 < n + length bucket \<and> \<not> temp then 1 else 0) \<and>
     state_file w' = (if 0 < n + length bucket \<and> \<not> temp then Valid c' else state_file w)"
proof (cases "bucket = []")
  case True
  assume "drain_priority vol out temp (p, bucket) (c, n, w) = (c', n', w')"
  with True show ?thesis
    by (auto simp add: drain_priority_def save_state_frame split: if_splits)
next
  case False
  assume a: "drain_priority vol out temp (p, bucket) (c, n, w) = (c', n', w')"
  obtain d w0 where cd: "create_directory_or_file out (''Priority_'' @ upper (drop 1 p)) w = (d, w0)"
    by (cases "create_directory_or_file out (''Priority_'' @ upper (drop 1 p)) w") auto
  obtain c1 n1 w1 where df: "drain_files vol d bucket (c, n, w0) = (c1, n1, w1)"
    by (cases "drain_files vol d bucket (c, n, w0)") auto
  note f0 = create_directory_frame [OF cd]
  note f1 = drain_files_frame [OF df]
  from False f1 have pos: "0 < n1" by simp
  from a False cd df pos have "c' = c1" "n' = n1" "w' = (if \<not> temp then save_state c1 w1 else w1)"
    by (auto simp add: drain_priority_def Let_def)
  with f0 f1 False show ?thesis
    by (auto simp add: save_state_frame)
qed

section \<open>Saving during the drain of the lower priorities\<close>

lemma priorities_loop_saves:
  "priorities_loop vol out False tiers (c, n, w) = (c', n', w') \<Longrightarrow>
     saves (console w') = saves (console w) +
       (if 0 < n then length tiers else length (dropWhile (\<lambda>item. snd item = []) tiers))"
proof (induction tiers arbitrary: c n w)
  case Nil
  then show ?case by simp
next
  case (Cons item tiers)
  obtain p bucket where item: "item = (p, bucket)" by (cases item) auto
  obtain c1 n1 w1 where dp: "drain_priority vol out False (p, bucket) (c, n, w) = (c1, n1, w1)"
    by (cases "drain_priority vol out False (p, bucket) (c, n, w)") auto
  note r = drain_priority_result [OF dp]
  from Cons.prems have "priorities_loop vol out False tiers (c1, n1, w1) = (c', n', w')"
    by (simp add: item dp)
  from Cons.IH [OF this] r show ?case
    by (auto simp add: item)
qed

text \<open>
  Claim C6 as stated fails: a drain that visits one tier with an empty bucket does not
  write the state file.
\<close>

theorem empty_tier_not_saved:
  "saves (console (snd (copy_other_priorities Map.empty [(''.txt'', [])] [''out''] {} False
                          fresh_world))) = 0 \<and>
   length [(''.txt'', [] :: pending list)] = 1"
  by (simp add: eval_defs saves_def)

section \<open>A file that cannot be fingerprinted\<close>

lemma unreadable_fingerprint:
  "unreadable vol p \<Longrightarrow> fingerprint vol p = Inl OSError"
  by (auto simp add: unreadable_def fingerprint_def get_file_size_def get_checksum_def split: option.splits)

lemma visit_file_fingerprint_fails:
  "fingerprint vol p = Inl e \<Longrightarrow> visit_file vol out pl wants dis p s = Inl (e, env s)"
  by (auto simp add: visit_file_def fingerprint_def split: sum.splits)

lemma scan_loop_append:
  "scan_loop vol out pl wants dis (before @ rest) s =
     (case scan_loop vol out pl wants dis before s of
        Inl e \<Rightarrow> Inl e
      | Inr s' \<Rightarrow> scan_loop vol out pl wants dis rest s')"
  by (induction before arbitrary: s) (auto split: sum.splits)

lemma scan_loop_stops:
  assumes "unreadable vol p"
  shows "scan_loop vol out pl wants dis (before @ p # rest) s =
     (case scan_loop vol out pl wants dis before s of
        Inl e \<Rightarrow> Inl e
      | Inr s' \<Rightarrow> Inl (OSError, env s'))"
  using visit_file_fingerprint_fails [OF unreadable_fingerprint [OF assms]]
  by (simp add: scan_loop_append split: sum.splits)

lemma scan_loop_unreadable:
  assumes u: "unreadable vol p" and m: "p \<in> set ps"
  shows "isl (scan_loop vol out pl wants dis ps s)"
proof -
  from m obtain before rest where "ps = before @ p # rest" by (auto simp add: in_set_conv_decomp)
  with scan_loop_stops [OF u] show ?thesis by (simp split: sum.splits)
qed

lemma walk_unreadable:
  assumes "unreadable (contents drv) p" and "p \<in> set (walk_files (listing drv))"
  shows "isl (walk_through_files dis drv out pl c temp wants w)"
proof -
  let ?s = "\<lparr>lower_priority_files = dict_init (drop 1 pl), non_priority_files = [],
             copied = c, number_of_copied = 0, env = w\<rparr>"
  from scan_loop_unreadable [OF assms, of out pl wants dis ?s]
  obtain e where "scan_loop (contents drv) out pl wants dis (walk_files (listing drv)) ?s = Inl e"
    by (auto simp add: isl_def)
  then show ?thesis by (simp add: walk_through_files_def)
qed

lemma process_drive_unreadable:
  assumes "unreadable (contents drv) p" and "p \<in> set (walk_files (listing drv))"
  shows "isl (process_drive st out pl wants temp drv cw)"
proof -
  obtain c w where cw: "cw = (c, w)" by (cases cw) auto
  obtain d w1 where cd: "create_drive_dir out drv w = (d, w1)" by (cases "create_drive_dir out drv w") auto
  from walk_unreadable [OF assms, of "disabled_extensions st" "dir_of d" pl c temp wants w1]
  obtain e where "walk_through_files (disabled_extensions st) drv (dir_of d) pl c temp wants w1 = Inl e"
    by (auto simp add: isl_def)
  then show ?thesis by (simp add: process_drive_def cw cd)
qed

lemma drives_loop_unreadable:
  assumes "unreadable (contents drv) p" and "p \<in> set (walk_files (listing drv))" and "drv \<in> set drives"
  shows "isl (drives_loop st out pl wants temp drives cw)"
  using assms(3)
proof (induction drives arbitrary: cw)
  case Nil
  then show ?case by simp
next
  case (Cons d ds)
  show ?case
  proof (cases "process_drive st out pl wants temp d cw")
    case (Inl e)
    then show ?thesis by simp
  next
    case (Inr cw')
    with process_drive_unreadable [OF assms(1,2), of st out pl wants temp cw] have "d \<noteq> drv" by auto
    with Cons.prems have "drv \<in> set ds" by simp
    from Cons.IH [OF this] Inr show ?thesis by simp
  qed
qed

text \<open>
  Claim C3 as stated fails: the readable picture listed after the unreadable one is never
  copied, and the run ends with the error.
\<close>

theorem unreadable_file_stops_scan:
  "observe (run_session template_settings ([''out''], True, False) [[locked_first_drive]] fresh_world) =
     Some (Inl (OSError, [], Valid {}))"
  by (simp add: eval_defs locked_first_drive_def locked_file_def)

section \<open>A copy that fails\<close>




section \<open>Running twice over the same drives\<close>

lemma grows_refl: "grows s s"
  by (simp add: grows_def)

lemma grows_trans:
  assumes a: "grows s s'" and b: "grows s' s''"
  shows "grows s s''"
proof -
  from a b have le: "number_of_copied s \<le> number_of_copied s'" "number_of_copied s' \<le> number_of_copied s''"
    by (simp_all add: grows_def)
  have eq: "number_of_copied s'' = number_of_copied s \<longrightarrow> copied s'' = copied s"
  proof
    assume e: "number_of_copied s'' = number_of_copied s"
    with le have "number_of_copied s' = number_of_copied s" "number_of_copied s'' = number_of_copied s'"
      by simp_all
    with a b show "copied s'' = copied s" by (simp add: grows_def)
  qed
  from a b have "state_file (env s'') = state_file (env s)" "unwritable (env s'') = unwritable (env s)"
    "copied s \<subseteq> copied s''" "queued (lower_priority_files s) \<subseteq> queued (lower_priority_files s'')"
    "set (non_priority_files s) \<subseteq> set (non_priority_files s'')"
    unfolding grows_def by (simp, simp, blast, blast, blast)
  with le eq show ?thesis unfolding grows_def by simp
qed

lemma set_set_add: "set (set_add x xs) = insert x (set xs)"
  by (auto simp add: set_add_def)

lemma covered_mono: "grows s s' \<Longrightarrow> covered r s cs \<Longrightarrow> covered r s' cs"
  unfolding grows_def covered_def by blast

lemma map_of_dict_set_present:
  "map_of (map (\<lambda>(k', v'). if k' = k then (k', v) else (k', v')) d) =
     (\<lambda>x. if x = k then (if k \<in> fst ` set d then Some v else None) else map_of d x)"
  by (induction d) (auto simp add: fun_eq_iff)

lemma map_of_dict_set: "map_of (dict_set d k v) = (map_of d)(k \<mapsto> v)"
proof (cases "k \<in> fst ` set d")
  case True
  then show ?thesis
    by (simp only: dict_set_def if_True map_of_dict_set_present) (auto simp add: fun_eq_iff)
next
  case False
  then have "map_of d k = None" by (simp add: map_of_eq_None_iff)
  with False show ?thesis
    by (auto simp add: dict_set_def fun_eq_iff map_add_def split: option.splits)
qed

lemma queued_bucket_add:
  assumes "bucket_add ext r d = Inr d'"
  shows "queued d \<subseteq> queued d' \<and> fst r \<in> queued d'"
proof -
  from assms obtain b where b: "map_of d ext = Some b" and d': "d' = dict_set d ext (set_add r b)"
    by (auto simp add: bucket_add_def split: option.splits)
  have m: "map_of d' = (map_of d)(ext \<mapsto> set_add r b)" by (simp add: d' map_of_dict_set)
  have 1: "fst r \<in> queued d'"
    unfolding queued_def using m by (auto simp add: set_set_add)
  have 2: "queued d \<subseteq> queued d'"
  proof
    fix cs assume "cs \<in> queued d"
    then obtain k b' where kb: "map_of d k = Some b'" "cs \<in> fst ` set b'" by (auto simp add: queued_def)
    show "cs \<in> queued d'"
    proof (cases "k = ext")
      case True
      with kb b have "cs \<in> fst ` set (set_add r b)" by (auto simp add: set_set_add)
      with m show ?thesis unfolding queued_def by auto
    next
      case False
      with kb m have "map_of d' k = Some b'" by simp
      with kb show ?thesis unfolding queued_def by blast
    qed
  qed
  from 1 2 show ?thesis by simp
qed

lemma visit_file_grows:
  assumes v: "visit_file vol out pl wants dis p s = Inr s'"
  shows "grows s s' \<and>
         (\<exists>cs. fingerprint vol p = Inr cs \<and>
               covered (route pl wants dis (lower (suffix (name_of p)))) s' cs)"
proof -
  from v obtain size cs where gs: "get_file_size vol p = Inr size"
    and gc: "get_checksum vol p size = Inr cs"
    by (auto simp add: visit_file_def split: sum.splits)
  then have fp: "fingerprint vol p = Inr cs" by (simp add: fingerprint_def)
  let ?r = "route pl wants dis (lower (suffix (name_of p)))"
  show ?thesis
  proof (cases "cs \<in> copied s")
    case True
    with v gs gc have "s' = s" by (simp add: visit_file_def)
    with True fp show ?thesis by (simp add: grows_refl covered_def)
  next
    case False
    show ?thesis
    proof (cases ?r)
      case Copy_first_priority
      obtain d w1 where cd: "create_directory_or_file out (''Priority_'' @ drop 1 (hd pl)) (env s) = (d, w1)"
        by (cases "create_directory_or_file out (''Priority_'' @ drop 1 (hd pl)) (env s)") auto
      from v gs gc False Copy_first_priority cd
      have s': "s' = s\<lparr>copied := insert cs (copied s), number_of_copied := Suc (number_of_copied s),
                       env := copy_file vol p (pjoin d (name_of p)) w1\<rparr>"
        by (simp add: visit_file_def Let_def)
      from create_directory_frame [OF cd] have "grows s s'"
        by (auto simp add: s' grows_def copy_file_frame)
      moreover have "covered ?r s' cs" by (simp add: s' covered_def)
      ultimately show ?thesis using fp by blast
    next
      case Queue_lower_priority
      from v gs gc False Queue_lower_priority
      obtain d where ba: "bucket_add (lower (suffix (name_of p))) (cs, p, size) (lower_priority_files s) = Inr d"
        and s': "s' = s\<lparr>lower_priority_files := d\<rparr>"
        by (auto simp add: visit_file_def split: sum.splits)
      from queued_bucket_add [OF ba] have "grows s s'" and "covered ?r s' cs"
        by (auto simp add: s' grows_def covered_def Queue_lower_priority)
      with fp show ?thesis by blast
    next
      case Queue_non_priority
      from v gs gc False Queue_non_priority
      have s': "s' = s\<lparr>non_priority_files := set_add (cs, p, size) (non_priority_files s)\<rparr>"
        by (simp add: visit_file_def)
      have "grows s s'" by (auto simp add: s' grows_def set_set_add)
      moreover have "covered ?r s' cs"
        by (simp add: s' covered_def Queue_non_priority set_set_add)
      ultimately show ?thesis using fp by blast
    next
      case Copy_all_files
      obtain d w1 where cd: "create_directory_or_file out ''All_files_copied'' (env s) = (d, w1)"
        by (cases "create_directory_or_file out ''All_files_copied'' (env s)") auto
      from v gs gc False Copy_all_files cd
      have s': "s' = s\<lparr>copied := insert cs (copied s), number_of_copied := Suc (number_of_copied s),
                       env := copy_file vol p d w1\<rparr>"
        by (simp add: visit_file_def Let_def)
      from create_directory_frame [OF cd] have "grows s s'"
        by (auto simp add: s' grows_def copy_file_frame)
      moreover have "covered ?r s' cs" by (simp add: s' covered_def)
      ultimately show ?thesis using fp by blast
    next
      case Skip_disabled
      with v gs gc False have "s' = s" by (simp add: visit_file_def)
      with Skip_disabled fp show ?thesis by (simp add: grows_refl covered_def)
    qed
  qed
qed

lemma scan_loop_grows:
  "scan_loop vol out pl wants dis ps s = Inr s' \<Longrightarrow>
     grows s s' \<and>
     (\<forall>p \<in> set ps. \<exists>cs. fingerprint vol p = Inr cs \<and>
         covered (route pl wants dis (lower (suffix (name_of p)))) s' cs)"
proof (induction ps arbitrary: s)
  case Nil
  then show ?case by (simp add: grows_refl)
next
  case (Cons p ps)
  from Cons.prems obtain s1 where v: "visit_file vol out pl wants dis p s = Inr s1"
    and l: "scan_loop vol out pl wants dis ps s1 = Inr s'"
    by (auto split: sum.splits)
  from visit_file_grows [OF v] obtain cs where g1: "grows s s1" and fp: "fingerprint vol p = Inr cs"
    and c1: "covered (route pl wants dis (lower (suffix (name_of p)))) s1 cs" by blast
  from Cons.IH [OF l] have g2: "grows s1 s'"
    and rest: "\<forall>p \<in> set ps. \<exists>cs. fingerprint vol p = Inr cs \<and>
         covered (route pl wants dis (lower (suffix (name_of p)))) s' cs" by auto
  from covered_mono [OF g2 c1] fp rest grows_trans [OF g1 g2] show ?case by auto
qed

lemma queued_subset_items: "queued d \<subseteq> fst ` (\<Union>item \<in> set d. set (snd item))"
proof
  fix cs assume "cs \<in> queued d"
  then obtain k b where "map_of d k = Some b" and cs: "cs \<in> fst ` set b" by (auto simp add: queued_def)
  then have "(k, b) \<in> set d" by (simp add: map_of_SomeD)
  with cs show "cs \<in> fst ` (\<Union>item \<in> set d. set (snd item))" by force
qed

lemma priorities_loop_result:
  "priorities_loop vol out False items (c, n, w) = (c', n', w') \<Longrightarrow>
     c' = c \<union> fst ` (\<Union>item \<in> set items. set (snd item)) \<and>
     unwritable w' = unwritable w \<and>
     (state_file w = Valid c \<longrightarrow> state_file w' = Valid c')"
proof (induction items arbitrary: c n w)
  case Nil
  then show ?case by simp
next
  case (Cons item items)
  obtain p bucket where item: "item = (p, bucket)" by (cases item) auto
  obtain c1 n1 w1 where dp: "drain_priority vol out False (p, bucket) (c, n, w) = (c1, n1, w1)"
    by (cases "drain_priority vol out False (p, bucket) (c, n, w)") auto
  note r = drain_priority_result [OF dp]
  from r have st: "state_file w = Valid c \<longrightarrow> state_file w1 = Valid c1"
    by (cases "bucket = []") auto
  from Cons.prems have "priorities_loop vol out False items (c1, n1, w1) = (c', n', w')"
    by (simp add: item dp)
  from Cons.IH [OF this] r st show ?case
    by (auto simp add: item)
qed

lemma copy_other_priorities_result:
  assumes "copy_other_priorities vol d out c False w = (c', w')"
  shows "c \<union> queued d \<subseteq> c' \<and> unwritable w' = unwritable w \<and>
         (state_file w = Valid c \<longrightarrow> state_file w' = Valid c')"
proof -
  obtain c1 n1 w1 where pl: "priorities_loop vol out False d (c, 0, w) = (c1, n1, w1)"
    by (cases "priorities_loop vol out False d (c, 0, w)") auto
  with assms have "c' = c1" "w' = w1" by (simp_all add: copy_other_priorities_def)
  with priorities_loop_result [OF pl] queued_subset_items [of d] show ?thesis by auto
qed

lemma copy_non_priority_result:
  assumes "copy_non_priority vol np out c False w = (c', w')"
  shows "c' = c \<union> fst ` set np \<and> unwritable w' = unwritable w \<and>
         (state_file w = Valid c \<longrightarrow> state_file w' = Valid c')"
proof (cases "np = []")
  case True
  with assms show ?thesis by (simp add: copy_non_priority_def)
next
  case False
  obtain dir w0 where cd: "create_directory_or_file out ''Non-priority'' w = (dir, w0)"
    by (cases "create_directory_or_file out ''Non-priority'' w") auto
  obtain c1 n1 w1 where df: "drain_files vol dir np (c, 0, w0) = (c1, n1, w1)"
    by (cases "drain_files vol dir np (c, 0, w0)") auto
  note f0 = create_directory_frame [OF cd]
  note f1 = drain_files_frame [OF df]
  from False f1 have "0 < n1" by simp
  with assms False cd df have "c' = c1" "w' = save_state c1 w1"
    by (auto simp add: copy_non_priority_def Let_def)
  with f0 f1 show ?thesis by (simp add: save_state_frame)
qed

lemma walk_result:
  assumes wk: "walk_through_files dis drv out pl c False wants w = Inr (lp, np, c', w')"
  shows "c \<subseteq> c' \<and> unwritable w' = unwritable w \<and>
         (state_file w = Valid c \<longrightarrow> state_file w' = Valid c') \<and>
         (\<forall>p \<in> set (walk_files (listing drv)).
            \<exists>cs. fingerprint (contents drv) p = Inr cs \<and>
              (cs \<in> c' \<or>
               (route pl wants dis (lower (suffix (name_of p))) = Queue_lower_priority \<and> cs \<in> queued lp) \<or>
               (route pl wants dis (lower (suffix (name_of p))) = Queue_non_priority \<and> cs \<in> fst ` set np) \<or>
               route pl wants dis (lower (suffix (name_of p))) = Skip_disabled))"
proof -
  let ?s = "\<lparr>lower_priority_files = dict_init (drop 1 pl), non_priority_files = [],
             copied = c, number_of_copied = 0, env = w\<rparr>"
  from wk obtain s' where sl: "scan_loop (contents drv) out pl wants dis (walk_files (listing drv)) ?s = Inr s'"
    by (auto simp add: walk_through_files_def split: sum.splits)
  from wk sl have lp: "lp = lower_priority_files s'" and np: "np = non_priority_files s'"
    and c': "c' = copied s'"
    and w': "w' = (if 0 < number_of_copied s' then save_state (copied s') (env s') else env s')"
    by (auto simp add: walk_through_files_def split: if_splits)
  from scan_loop_grows [OF sl] have g: "grows ?s s'"
    and cov: "\<forall>p \<in> set (walk_files (listing drv)). \<exists>cs. fingerprint (contents drv) p = Inr cs \<and>
         covered (route pl wants dis (lower (suffix (name_of p)))) s' cs" by auto
  from g have sub: "c \<subseteq> c'" and u: "unwritable w' = unwritable w"
    by (auto simp add: grows_def c' w' save_state_frame)
  have st: "state_file w = Valid c \<longrightarrow> state_file w' = Valid c'"
  proof (cases "0 < number_of_copied s'")
    case True
    then show ?thesis by (simp add: w' c' save_state_frame)
  next
    case False
    with g have "copied s' = c" "state_file (env s') = state_file w" by (auto simp add: grows_def)
    with False show ?thesis by (simp add: w' c')
  qed
  from cov have "\<forall>p \<in> set (walk_files (listing drv)).
            \<exists>cs. fingerprint (contents drv) p = Inr cs \<and>
              (cs \<in> c' \<or>
               (route pl wants dis (lower (suffix (name_of p))) = Queue_lower_priority \<and> cs \<in> queued lp) \<or>
               (route pl wants dis (lower (suffix (name_of p))) = Queue_non_priority \<and> cs \<in> fst ` set np) \<or>
               route pl wants dis (lower (suffix (name_of p))) = Skip_disabled)"
    by (simp add: covered_def lp np c')
  with sub u st show ?thesis by blast
qed

lemma route_queue_wants:
  "route pl wants dis e = Queue_lower_priority \<or> route pl wants dis e = Queue_non_priority \<Longrightarrow> wants"
  by (auto simp add: route_def split: if_splits)

lemma settled_mono: "c \<subseteq> c' \<Longrightarrow> settled st pl wants c drv \<Longrightarrow> settled st pl wants c' drv"
  unfolding settled_def list_all_iff by (auto split: sum.splits)

lemma process_drive_first_run:
  assumes pd: "process_drive st out pl wants False drv (c, w) = Inr (c', w')"
  shows "c \<subseteq> c' \<and> unwritable w' = unwritable w \<and>
         (state_file w = Valid c \<longrightarrow> state_file w' = Valid c') \<and>
         settled st pl wants c' drv"
proof -
  let ?dis = "disabled_extensions st"
  obtain d w1 where cd: "create_drive_dir out drv w = (d, w1)" by (cases "create_drive_dir out drv w") auto
  then have f0: "state_file w1 = state_file w" "unwritable w1 = unwritable w"
    by (auto simp add: create_drive_dir_def dest: create_directory_frame)
  from pd cd obtain lp np c1 w2
    where wk: "walk_through_files ?dis drv (dir_of d) pl c False wants w1 = Inr (lp, np, c1, w2)"
    by (auto simp add: process_drive_def split: sum.splits)
  note r1 = walk_result [OF wk]
  obtain c2 w3 where co: "copy_other_priorities (contents drv) lp (dir_of d) c1 False w2 = (c2, w3)"
    by (cases "copy_other_priorities (contents drv) lp (dir_of d) c1 False w2") auto
  note r2 = copy_other_priorities_result [OF co]
  obtain c3 w4 where cn: "copy_non_priority (contents drv) np (dir_of d) c2 False w3 = (c3, w4)"
    by (cases "copy_non_priority (contents drv) np (dir_of d) c2 False w3") auto
  note r3 = copy_non_priority_result [OF cn]
  from pd cd wk co cn
  have res: "(c', w') = (if wants then (if \<not> copy_only_priority st then (c3, w4) else (c2, w3)) else (c1, w2))"
    by (auto simp add: process_drive_def Let_def split: if_splits)
  have frame: "c \<subseteq> c' \<and> unwritable w' = unwritable w \<and>
         (state_file w = Valid c \<longrightarrow> state_file w' = Valid c')"
    using res r1 r2 r3 f0 by (auto split: if_splits)
  have "settled st pl wants c' drv"
    unfolding settled_def list_all_iff
  proof
    fix p assume m: "p \<in> set (walk_files (listing drv))"
    let ?r = "route pl wants ?dis (lower (suffix (name_of p)))"
    from r1 m obtain cs where fp: "fingerprint (contents drv) p = Inr cs"
      and cases: "cs \<in> c1 \<or> (?r = Queue_lower_priority \<and> cs \<in> queued lp) \<or>
               (?r = Queue_non_priority \<and> cs \<in> fst ` set np) \<or> ?r = Skip_disabled"
      by blast
    have "cs \<in> c' \<or> parked st ?r"
    proof (cases wants)
      case False
      with route_queue_wants [of pl wants ?dis] cases res show ?thesis
        by (auto simp add: parked_def)
    next
      case True
      show ?thesis
      proof (cases "copy_only_priority st")
        case True
        with \<open>wants\<close> res have "c' = c2" by simp
        with cases r2 True show ?thesis by (auto simp add: parked_def)
      next
        case False
        with \<open>wants\<close> res have "c' = c3" by simp
        with cases r2 r3 show ?thesis by (auto simp add: parked_def)
      qed
    qed
    with fp show "case fingerprint (contents drv) p of Inl e \<Rightarrow> False
         | Inr cs \<Rightarrow> cs \<in> c' \<or> parked st ?r"
      by simp
  qed
  with frame show ?thesis by simp
qed

lemma visit_file_idle:
  assumes fp: "fingerprint vol p = Inr cs"
    and k: "cs \<in> copied s \<or> parked st (route pl wants dis (lower (suffix (name_of p))))"
  shows "\<exists>np. visit_file vol out pl wants dis p s = Inr (s\<lparr>non_priority_files := np\<rparr>) \<and>
              (\<not> copy_only_priority st \<longrightarrow> np = non_priority_files s)"
proof -
  from fp obtain size where gs: "get_file_size vol p = Inr size" and gc: "get_checksum vol p size = Inr cs"
    by (auto simp add: fingerprint_def split: sum.splits)
  show ?thesis
  proof (cases "cs \<in> copied s")
    case True
    with gs gc have "visit_file vol out pl wants dis p s = Inr (s\<lparr>non_priority_files := non_priority_files s\<rparr>)"
      by (simp add: visit_file_def)
    then show ?thesis by blast
  next
    case False
    with k have pk: "parked st (route pl wants dis (lower (suffix (name_of p))))" by simp
    show ?thesis
    proof (cases "route pl wants dis (lower (suffix (name_of p))) = Skip_disabled")
      case True
      with gs gc False
      have "visit_file vol out pl wants dis p s = Inr (s\<lparr>non_priority_files := non_priority_files s\<rparr>)"
        by (simp add: visit_file_def)
      then show ?thesis by blast
    next
      case nd: False
      with pk have q: "route pl wants dis (lower (suffix (name_of p))) = Queue_non_priority"
        and co: "copy_only_priority st" by (auto simp add: parked_def)
      from gs gc False q
      have "visit_file vol out pl wants dis p s =
              Inr (s\<lparr>non_priority_files := set_add (cs, p, size) (non_priority_files s)\<rparr>)"
        by (simp add: visit_file_def)
      with co show ?thesis by blast
    qed
  qed
qed

lemma scan_loop_idle:
  "list_all (\<lambda>p. case fingerprint vol p of Inl e \<Rightarrow> False
                | Inr cs \<Rightarrow> cs \<in> c \<or> parked st (route pl wants dis (lower (suffix (name_of p))))) ps \<Longrightarrow>
   copied s = c \<Longrightarrow>
     \<exists>np. scan_loop vol out pl wants dis ps s = Inr (s\<lparr>non_priority_files := np\<rparr>) \<and>
          (\<not> copy_only_priority st \<longrightarrow> np = non_priority_files s)"
proof (induction ps arbitrary: s)
  case Nil
  have "scan_loop vol out pl wants dis [] s = Inr (s\<lparr>non_priority_files := non_priority_files s\<rparr>)"
    by simp
  then show ?case by blast
next
  case (Cons p ps)
  from Cons.prems obtain cs where fp: "fingerprint vol p = Inr cs"
    and k: "cs \<in> copied s \<or> parked st (route pl wants dis (lower (suffix (name_of p))))"
    by (auto split: sum.splits)
  from visit_file_idle [OF fp k, of out]
  obtain np1 where v: "visit_file vol out pl wants dis p s = Inr (s\<lparr>non_priority_files := np1\<rparr>)"
    and n1: "\<not> copy_only_priority st \<longrightarrow> np1 = non_priority_files s" by blast
  let ?s1 = "s\<lparr>non_priority_files := np1\<rparr>"
  from Cons.prems have rest: "list_all (\<lambda>p. case fingerprint vol p of Inl e \<Rightarrow> False
                | Inr cs \<Rightarrow> cs \<in> c \<or> parked st (route pl wants dis (lower (suffix (name_of p))))) ps"
    and c1: "copied ?s1 = c"
    by simp_all
  from Cons.IH [OF rest c1]
  obtain np2 where l: "scan_loop vol out pl wants dis ps ?s1 = Inr (?s1\<lparr>non_priority_files := np2\<rparr>)"
    and n2: "\<not> copy_only_priority st \<longrightarrow> np2 = non_priority_files ?s1" by blast
  from v l have "scan_loop vol out pl wants dis (p # ps) s = Inr (s\<lparr>non_priority_files := np2\<rparr>)"
    by simp
  moreover from n1 n2 have "\<not> copy_only_priority st \<longrightarrow> np2 = non_priority_files s" by simp
  ultimately show ?case by blast
qed

lemma dict_set_empty_buckets:
  "\<forall>item \<in> set d. snd item = [] \<Longrightarrow> \<forall>item \<in> set (dict_set d k []). snd item = []"
  by (auto simp add: dict_set_def split: if_splits)

lemma fold_dict_set_empty_buckets:
  "\<forall>item \<in> set d. snd item = [] \<Longrightarrow>
     \<forall>item \<in> set (fold (\<lambda>priority d. dict_set d priority []) ks d). snd item = []"
proof (induction ks arbitrary: d)
  case Nil
  then show ?case by simp
next
  case (Cons k ks)
  from Cons.IH [OF dict_set_empty_buckets [OF Cons.prems]] show ?case by simp
qed

lemma dict_init_empty_buckets: "\<forall>item \<in> set (dict_init ks). snd item = ([] :: pending list)"
  using fold_dict_set_empty_buckets [of "[]" ks] by (simp add: dict_init_def)

lemma priorities_loop_idle:
  "\<forall>item \<in> set items. snd item = [] \<Longrightarrow>
     priorities_loop vol out temp items (c, 0, w) = (c, 0, w)"
  by (induction items) (auto simp add: drain_priority_def)

lemma process_drive_second_run:
  assumes s: "settled st pl wants c drv"
  shows "\<exists>w'. process_drive st out pl wants False drv (c, w) = Inr (c, w') \<and>
              console w' = console w \<and> state_file w' = state_file w \<and> unwritable w' = unwritable w"
proof -
  let ?dis = "disabled_extensions st"
  obtain d w1 where cd: "create_drive_dir out drv w = (d, w1)" by (cases "create_drive_dir out drv w") auto
  then have f0: "state_file w1 = state_file w" "unwritable w1 = unwritable w" "console w1 = console w"
    by (auto simp add: create_drive_dir_def dest: create_directory_frame)
  let ?s = "\<lparr>lower_priority_files = dict_init (drop 1 pl), non_priority_files = [],
             copied = c, number_of_copied = 0, env = w1\<rparr>"
  from s have "list_all (\<lambda>p. case fingerprint (contents drv) p of Inl e \<Rightarrow> False
                | Inr cs \<Rightarrow> cs \<in> c \<or> parked st (route pl wants ?dis (lower (suffix (name_of p)))))
          (walk_files (listing drv))"
    by (simp add: settled_def)
  from scan_loop_idle [OF this, of ?s "dir_of d"]
  obtain np where sl: "scan_loop (contents drv) (dir_of d) pl wants ?dis (walk_files (listing drv)) ?s =
        Inr (?s\<lparr>non_priority_files := np\<rparr>)"
    and n: "\<not> copy_only_priority st \<longrightarrow> np = []" by auto
  then have wk: "walk_through_files ?dis drv (dir_of d) pl c False wants w1 =
        Inr (dict_init (drop 1 pl), np, c, w1)"
    by (simp add: walk_through_files_def)
  have co: "copy_other_priorities (contents drv) (dict_init (drop 1 pl)) (dir_of d) c False w1 = (c, w1)"
    by (simp add: copy_other_priorities_def priorities_loop_idle [OF dict_init_empty_buckets])
  have cn: "\<not> copy_only_priority st \<longrightarrow> copy_non_priority (contents drv) np (dir_of d) c False w1 = (c, w1)"
    using n by (simp add: copy_non_priority_def)
  from cd wk co cn have "process_drive st out pl wants False drv (c, w) = Inr (c, w1)"
    by (simp add: process_drive_def)
  with f0 show ?thesis by blast
qed

lemma drives_loop_first_run:
  "drives_loop st out pl wants False drives (c, w) = Inr (c', w') \<Longrightarrow>
     c \<subseteq> c' \<and> unwritable w' = unwritable w \<and>
     (state_file w = Valid c \<longrightarrow> state_file w' = Valid c') \<and>
     list_all (settled st pl wants c') drives"
proof (induction drives arbitrary: c w)
  case Nil
  then show ?case by simp
next
  case (Cons drv drives)
  from Cons.prems obtain c1 w1 where pd: "process_drive st out pl wants False drv (c, w) = Inr (c1, w1)"
    and dl: "drives_loop st out pl wants False drives (c1, w1) = Inr (c', w')"
    by (auto split: sum.splits)
  note r1 = process_drive_first_run [OF pd]
  note r2 = Cons.IH [OF dl]
  from r1 r2 have "settled st pl wants c' drv" using settled_mono by blast
  with r1 r2 show ?case by auto
qed

lemma drives_loop_second_run:
  "list_all (settled st pl wants c) drives \<Longrightarrow>
     \<exists>w'. drives_loop st out pl wants False drives (c, w) = Inr (c, w') \<and>
          console w' = console w \<and> state_file w' = state_file w \<and> unwritable w' = unwritable w"
proof (induction drives arbitrary: w)
  case Nil
  then show ?case by simp
next
  case (Cons drv drives)
  then have s: "settled st pl wants c drv" and rest: "list_all (settled st pl wants c) drives"
    by simp_all
  from process_drive_second_run [OF s, of out w]
  obtain w1 where pd: "process_drive st out pl wants False drv (c, w) = Inr (c, w1)"
    and f1: "console w1 = console w" "state_file w1 = state_file w" "unwritable w1 = unwritable w"
    by blast
  from Cons.IH [OF rest, of w1]
  obtain w2 where dl: "drives_loop st out pl wants False drives (c, w1) = Inr (c, w2)"
    and f2: "console w2 = console w1" "state_file w2 = state_file w1" "unwritable w2 = unwritable w1"
    by blast
  from pd dl have "drives_loop st out pl wants False (drv # drives) (c, w) = Inr (c, w2)" by simp
  with f1 f2 show ?case by simp
qed

lemma poll_loop_rerun:
  assumes "poll_loop st out pl wants False polls (c, w) = Some (Inr (c', w'))"
    and "state_file w = Valid c"
  shows "state_file w' = Valid c' \<and>
         (\<exists>w''. poll_loop st out pl wants False polls (c', w') = Some (Inr (c', w'')) \<and>
                console w'' = console w' \<and> state_file w'' = state_file w')"
  using assms(1)
proof (induction polls)
  case Nil
  then show ?case by simp
next
  case (Cons drives polls)
  show ?case
  proof (cases "drives = []")
    case True
    with Cons.prems have "poll_loop st out pl wants False polls (c, w) = Some (Inr (c', w'))" by simp
    from Cons.IH [OF this] True show ?thesis by auto
  next
    case False
    with Cons.prems have dl: "drives_loop st out pl wants False drives (c, w) = Inr (c', w')" by simp
    from drives_loop_first_run [OF dl] assms(2)
    have v: "state_file w' = Valid c'" and s: "list_all (settled st pl wants c') drives" by auto
    from drives_loop_second_run [OF s, of out w'] False v show ?thesis by auto
  qed
qed

text \<open>
  Claim C9, as amended. When a run with a persistent ledger over some drives ends without
  an error, the state file holds exactly the copied set of that run, and a second run over
  the same drives, started from the world the first one left, ends without an error too
  and prints nothing: it calls \<open>copy2\<close> for no file and does not write the state file.
\<close>

theorem rerun_copies_nothing:
  "run_session st (out, wants, False) polls w = Some (Inr (c1, w1)) \<Longrightarrow>
     state_file w1 = Valid c1 \<and>
     (\<exists>w2. run_session st (out, wants, False) polls w1 = Some (Inr (c1, w2)) \<and>
           console w2 = console w1 \<and> state_file w2 = state_file w1)"
proof -
  assume r: "run_session st (out, wants, False) polls w = Some (Inr (c1, w1))"
  let ?pl = "if wants then get_priority_list st else []"
  obtain c0 w0 where gc: "get_copied w = (c0, w0)" by (cases "get_copied w") auto
  then have v0: "state_file w0 = Valid c0"
    by (auto simp add: get_copied_def create_state_file_def split: state_json.splits)
  from r gc have pl: "poll_loop st out ?pl wants False polls (c0, w0) = Some (Inr (c1, w1))"
    by (simp add: run_session_def)
  from poll_loop_rerun [OF pl v0] obtain w2 where v1: "state_file w1 = Valid c1"
    and p2: "poll_loop st out ?pl wants False polls (c1, w1) = Some (Inr (c1, w2))"
    and f: "console w2 = console w1" "state_file w2 = state_file w1" by blast
  from v1 have "get_copied w1 = (c1, w1)" by (simp add: get_copied_def)
  with p2 have "run_session st (out, wants, False) polls w1 = Some (Inr (c1, w2))"
    by (simp add: run_session_def)
  with v1 f show ?thesis by blast
qed

theorem rerun_copies_nothing_witness:
  "observe (run_session template_settings ([''out''], True, False) [[jpg_drive]] fresh_world) =
     Some (Inr ({hexdigest (xxh64 [1, 2, 3]) @ ''_xxh64''},
                [Copying ([''E:''], ''x.jpg'') x_jpg, Saved {hexdigest (xxh64 [1, 2, 3]) @ ''_xxh64''}],
                Valid {hexdigest (xxh64 [1, 2, 3]) @ ''_xxh64''})) \<and>
   observe (run_session template_settings ([''out''], True, False) [[jpg_drive]]
              (world_after (run_session template_settings ([''out''], True, False) [[jpg_drive]]
                              fresh_world) fresh_world)) =
     Some (Inr ({hexdigest (xxh64 [1, 2, 3]) @ ''_xxh64''},
                [Copying ([''E:''], ''x.jpg'') x_jpg, Saved {hexdigest (xxh64 [1, 2, 3]) @ ''_xxh64''}],
                Valid {hexdigest (xxh64 [1, 2, 3]) @ ''_xxh64''}))"
proof -
  let ?run = "run_session template_settings ([''out''], True, False) [[jpg_drive]]"
  let ?fp = "hexdigest (xxh64 [1, 2, 3]) @ ''_xxh64''"
  let ?w1 = "world_after (?run fresh_world) fresh_world"
  have r: "?run fresh_world = Some (Inr ({?fp}, ?w1))"
    by (simp add: eval_defs jpg_drive_def world_after_def)
  have o: "observe (?run fresh_world) =
     Some (Inr ({?fp}, [Copying ([''E:''], ''x.jpg'') x_jpg, Saved {?fp}], Valid {?fp}))"
    by (simp add: eval_defs jpg_drive_def x_jpg_def)
  have c: "console ?w1 = [Copying ([''E:''], ''x.jpg'') x_jpg, Saved {?fp}]"
    by (simp add: eval_defs jpg_drive_def x_jpg_def world_after_def)
  from rerun_copies_nothing [OF r] obtain w2 where "state_file ?w1 = Valid {?fp}"
    and "?run ?w1 = Some (Inr ({?fp}, w2))" and "console w2 = console ?w1"
    and "state_file w2 = state_file ?w1" by blast
  with c have "observe (?run ?w1) =
     Some (Inr ({?fp}, [Copying ([''E:''], ''x.jpg'') x_jpg, Saved {?fp}], Valid {?fp}))"
    by (simp add: observe_def)
  with o show ?thesis by simp
qed

text \<open>
  Claim C9 as stated fails: the first run copies \<open>good.jpg\<close> and then stops at the
  unreadable \<open>bad.jpg\<close> before the state file is written; the second run over the same
  drive copies \<open>good.jpg\<close> again.
\<close>

theorem aborted_run_is_repeated:
  "observe (run_session template_settings ([''out''], True, False) [[locked_last_drive]] fresh_world) =
     Some (Inl (OSError,
                [Copying ([''E:''], ''good.jpg'') ([''out'', ''Drive_E_copy'', ''Priority_jpg''], ''good.jpg'')],
                Valid {})) \<and>
   observe (run_session template_settings ([''out''], True, False) [[locked_last_drive]]
              (world_after (run_session template_settings ([''out''], True, False)
                              [[locked_last_drive]] fresh_world) fresh_world)) =
     Some (Inl (OSError,
                [Copying ([''E:''], ''good.jpg'') ([''out'', ''Drive_E_copy'', ''Priority_jpg''], ''good.jpg''),
                 Copying ([''E:''], ''good.jpg'') ([''out'', ''Drive_E_copy'', ''Priority_jpg''], ''good_copy.jpg'')],
                Valid {}))"
  by (simp add: eval_defs locked_last_drive_def locked_file_def world_after_def)

section \<open>Further facts\<close>

text \<open>
  What does hold of the collision policy and of the scan: a destination that exists is
  never written by \<open>copy_file\<close>, and a file whose checksum is in the copied set is skipped.
\<close>

lemma existing_destination_kept:
  "exists_path w dst \<Longrightarrow> files (copy_file vol src dst w) dst = files w dst"
  using fallback_neq [of dst]
  by (auto simp add: copy_file_def copy_target_def copy2_def fallback_def Let_def pjoin_def dir_of_def
        with_name_def prod_eq_iff split: sum.splits option.splits if_splits)

lemma visit_file_skips_copied:
  "fingerprint vol p = Inr cs \<Longrightarrow> cs \<in> copied s \<Longrightarrow>
     visit_file vol out pl wants dis p s = Inr s"
  by (auto simp add: visit_file_def fingerprint_def split: sum.splits)

lemma visit_file_error_world:
  "visit_file vol out pl wants dis p s = Inl (e, w') \<Longrightarrow> w' = env s"
  by (auto simp add: visit_file_def Let_def split: sum.splits if_splits route.splits prod.splits)

lemma scan_loop_error_world:
  "scan_loop vol out pl wants dis ps s = Inl (e, w') \<Longrightarrow>
     state_file w' = state_file (env s) \<and> unwritable w' = unwritable (env s)"
proof (induction ps arbitrary: s)
  case Nil
  then show ?case by simp
next
  case (Cons p ps)
  show ?case
  proof (cases "visit_file vol out pl wants dis p s")
    case (Inl ew)
    with Cons.prems have "visit_file vol out pl wants dis p s = Inl (e, w')" by simp
    from visit_file_error_world [OF this] show ?thesis by simp
  next
    case (Inr s1)
    with Cons.prems have "scan_loop vol out pl wants dis ps s1 = Inl (e, w')" by simp
    from Cons.IH [OF this] visit_file_grows [OF Inr] show ?thesis by (simp add: grows_def)
  qed
qed

lemma walk_temp_state_file:
  "walk_through_files dis drv out pl c True wants w = r \<Longrightarrow>
     (case r of Inl (e, w') \<Rightarrow> state_file w' = state_file w
      | Inr (lp, np, c', w') \<Rightarrow> state_file w' = state_file w)"
proof -
  let ?s = "\<lparr>lower_priority_files = dict_init (drop 1 pl), non_priority_files = [],
             copied = c, number_of_copied = 0, env = w\<rparr>"
  assume a: "walk_through_files dis drv out pl c True wants w = r"
  show ?thesis
  proof (cases "scan_loop (contents drv) out pl wants dis (walk_files (listing drv)) ?s")
    case (Inl ew)
    obtain e w' where ew: "ew = (e, w')" by (cases ew) auto
    from scan_loop_error_world [OF Inl [unfolded ew]] a Inl ew show ?thesis
      by (auto simp add: walk_through_files_def)
  next
    case (Inr s')
    from scan_loop_grows [OF Inr] a Inr show ?thesis
      by (auto simp add: walk_through_files_def grows_def)
  qed
qed

lemma priorities_loop_temp_state_file:
  "priorities_loop vol out True items (c, n, w) = (c', n', w') \<Longrightarrow> state_file w' = state_file w"
proof (induction items arbitrary: c n w)
  case Nil
  then show ?case by simp
next
  case (Cons item items)
  obtain p bucket where item: "item = (p, bucket)" by (cases item) auto
  obtain c1 n1 w1 where dp: "drain_priority vol out True (p, bucket) (c, n, w) = (c1, n1, w1)"
    by (cases "drain_priority vol out True (p, bucket) (c, n, w)") auto
  from Cons.prems have "priorities_loop vol out True items (c1, n1, w1) = (c', n', w')"
    by (simp add: item dp)
  from Cons.IH [OF this] drain_priority_result [OF dp] show ?case by simp
qed

lemma copy_non_priority_temp_state_file:
  "copy_non_priority vol np out c True w = (c', w') \<Longrightarrow> state_file w' = state_file w"
proof (cases "np = []")
  case True
  assume "copy_non_priority vol np out c True w = (c', w')"
  with True show ?thesis by (simp add: copy_non_priority_def)
next
  case False
  assume a: "copy_non_priority vol np out c True w = (c', w')"
  obtain dir w0 where cd: "create_directory_or_file out ''Non-priority'' w = (dir, w0)"
    by (cases "create_directory_or_file out ''Non-priority'' w") auto
  obtain c1 n1 w1 where df: "drain_files vol dir np (c, 0, w0) = (c1, n1, w1)"
    by (cases "drain_files vol dir np (c, 0, w0)") auto
  from a False cd df have "w' = w1" by (auto simp add: copy_non_priority_def Let_def)
  with create_directory_frame [OF cd] drain_files_frame [OF df] show ?thesis by simp
qed

lemma process_drive_temp_state_file:
  "process_drive st out pl wants True drv (c, w) = r \<Longrightarrow>
     (case r of Inl (e, w') \<Rightarrow> state_file w' = state_file w
      | Inr (c', w') \<Rightarrow> state_file w' = state_file w)"
proof -
  assume a: "process_drive st out pl wants True drv (c, w) = r"
  obtain d w1 where cd: "create_drive_dir out drv w = (d, w1)" by (cases "create_drive_dir out drv w") auto
  then have f0: "state_file w1 = state_file w"
    by (auto simp add: create_drive_dir_def dest: create_directory_frame)
  show ?thesis
  proof (cases "walk_through_files (disabled_extensions st) drv (dir_of d) pl c True wants w1")
    case (Inl ew)
    with walk_temp_state_file [OF Inl] a cd f0 show ?thesis
      by (auto simp add: process_drive_def)
  next
    case (Inr res)
    obtain lp np c1 w2 where res: "res = (lp, np, c1, w2)" by (cases res) auto
    from walk_temp_state_file [OF Inr] res f0 have f1: "state_file w2 = state_file w" by simp
    obtain c2 w3 where co: "copy_other_priorities (contents drv) lp (dir_of d) c1 True w2 = (c2, w3)"
      by (cases "copy_other_priorities (contents drv) lp (dir_of d) c1 True w2") auto
    obtain c2' n2 w3' where pl: "priorities_loop (contents drv) (dir_of d) True lp (c1, 0, w2) = (c2', n2, w3')"
      by (cases "priorities_loop (contents drv) (dir_of d) True lp (c1, 0, w2)") auto
    from co pl have "w3 = w3'" by (simp add: copy_other_priorities_def)
    with priorities_loop_temp_state_file [OF pl] f1 have f2: "state_file w3 = state_file w" by simp
    obtain c3 w4 where cn: "copy_non_priority (contents drv) np (dir_of d) c2 True w3 = (c3, w4)"
      by (cases "copy_non_priority (contents drv) np (dir_of d) c2 True w3") auto
    from copy_non_priority_temp_state_file [OF cn] f2 have f3: "state_file w4 = state_file w" by simp
    from a cd Inr res co cn f1 f2 f3 show ?thesis
      by (auto simp add: process_drive_def Let_def split: if_splits)
  qed
qed

lemma drives_loop_temp_state_file:
  "drives_loop st out pl wants True drives (c, w) = r \<Longrightarrow>
     (case r of Inl (e, w') \<Rightarrow> state_file w' = state_file w
      | Inr (c', w') \<Rightarrow> state_file w' = state_file w)"
proof (induction drives arbitrary: c w)
  case Nil
  then show ?case by auto
next
  case (Cons drv drives)
  show ?case
  proof (cases "process_drive st out pl wants True drv (c, w)")
    case (Inl ew)
    with process_drive_temp_state_file [OF Inl] Cons.prems show ?thesis by auto
  next
    case (Inr cw)
    obtain c1 w1 where cw: "cw = (c1, w1)" by (cases cw) auto
    from process_drive_temp_state_file [OF Inr] cw have f1: "state_file w1 = state_file w" by simp
    from Cons.prems Inr cw have "drives_loop st out pl wants True drives (c1, w1) = r" by simp
    from Cons.IH [OF this] f1 show ?thesis by (auto split: sum.splits)
  qed
qed

text \<open>
  Past the prompts a session with \<open>temp_state\<close> set starts from the empty set and never
  writes the state file, however it ends.
\<close>

lemma temp_session_keeps_state_file:
  "state_file (world_after (run_session st (out, wants, True) polls w) w) = state_file w"
proof -
  let ?pl = "if wants then get_priority_list st else []"
  have "state_file (world_after (poll_loop st out ?pl wants True polls ({}, w)) w) = state_file w"
  proof (induction polls)
    case Nil
    show ?case by (simp add: world_after_def)
  next
    case (Cons drives polls)
    show ?case
    proof (cases "drives = []")
      case True
      with Cons show ?thesis by simp
    next
      case False
      from drives_loop_temp_state_file [where r = "drives_loop st out ?pl wants True drives ({}, w)"
            and st = st and out = out and pl = ?pl and wants = wants and drives = drives
            and c = "{}" and w = w, OF refl] False
      show ?thesis by (auto simp add: world_after_def split: sum.splits)
    qed
  qed
  then show ?thesis by (simp add: run_session_def)
qed

lemma digest_of_1: "hexdigest (xxh64 [1]) = ''8a4127811b21e730''"
  by code_simp

lemma digest_of_2: "hexdigest (xxh64 [2]) = ''4b79b8c95732b0e7''"
  by code_simp

text \<open>
  Without priority routing \<open>walk_through_files\<close> hands the directory \<open>All_files_copied\<close>
  itself to \<open>copy_file\<close> as destination. The directory exists, so every file is written to
  the one path \<open>All_files_copied_copy\<close>, each over the one before.
\<close>

lemma all_files_land_on_one_path:
  "observe (run_session template_settings ([''out''], False, False) [[mixed_drive]] fresh_world) =
     Some (Inr ({''8a4127811b21e730_xxh64'', ''4b79b8c95732b0e7_xxh64''},
                [Copying ([''E:''], ''a.png'') ([''out'', ''Drive_E_copy''], ''All_files_copied_copy''),
                 Copying ([''E:''], ''b.doc'') ([''out'', ''Drive_E_copy''], ''All_files_copied_copy''),
                 Saved {''8a4127811b21e730_xxh64'', ''4b79b8c95732b0e7_xxh64''}],
                Valid {''8a4127811b21e730_xxh64'', ''4b79b8c95732b0e7_xxh64''})) \<and>
   files (world_after (run_session template_settings ([''out''], False, False) [[mixed_drive]]
                         fresh_world) fresh_world)
     ([''out'', ''Drive_E_copy''], ''All_files_copied_copy'') = Some (File [2])"
  by (simp add: eval_defs mixed_drive_def world_after_def digest_of_1 digest_of_2 insert_commute)

text \<open>
  With the priority list that \<open>main\<close> passes, the bucket of a queued extension is always
  there: the \<open>KeyError\<close> of the model cannot arise, and a scan can only end with the error
  of a file that cannot be fingerprinted.
\<close>

lemma bucket_add_keys:
  "bucket_add ext r d = Inr d' \<Longrightarrow> fst ` set d \<subseteq> fst ` set d'"
proof -
  assume a: "bucket_add ext r d = Inr d'"
  then obtain b where b: "map_of d ext = Some b" and d': "d' = dict_set d ext (set_add r b)"
    by (auto simp add: bucket_add_def split: option.splits)
  have "set (map fst d') = set (map fst d) \<or> set (map fst d') = set (map fst d @ [ext])"
    unfolding d' dict_set_keys by simp
  then show ?thesis by auto
qed

lemma bucket_add_error:
  "bucket_add ext r d = Inl e \<Longrightarrow> ext \<notin> fst ` set d"
  by (auto simp add: bucket_add_def map_of_eq_None_iff split: option.splits)

lemma route_queue_lower:
  assumes "route pl wants dis ext = Queue_lower_priority" and "\<forall>x \<in> set pl. lower x = x"
  shows "ext \<in> set (drop 1 pl)"
proof -
  from assms(1) have ne: "pl \<noteq> []" and m: "ext \<in> set pl" and h: "ext \<noteq> lower (hd pl)"
    by (auto simp add: route_def split: if_splits)
  from ne obtain p ps where pl: "pl = p # ps" by (cases pl) auto
  with assms(2) have "lower p = p" by simp
  with h m pl show ?thesis by simp
qed

lemma visit_file_keys:
  assumes v: "visit_file vol out pl wants dis p s = Inr s'"
  shows "fst ` set (lower_priority_files s) \<subseteq> fst ` set (lower_priority_files s')"
proof -
  from v obtain size cs where gs: "get_file_size vol p = Inr size"
    and gc: "get_checksum vol p size = Inr cs"
    by (auto simp add: visit_file_def split: sum.splits)
  let ?ext = "lower (suffix (name_of p))"
  show ?thesis
  proof (cases "cs \<notin> copied s \<and> route pl wants dis ?ext = Queue_lower_priority")
    case True
    with v gs gc obtain d where ba: "bucket_add ?ext (cs, p, size) (lower_priority_files s) = Inr d"
      and s': "s' = s\<lparr>lower_priority_files := d\<rparr>"
      by (auto simp add: visit_file_def split: sum.splits)
    from bucket_add_keys [OF ba] s' show ?thesis by simp
  next
    case False
    with v gs gc have "lower_priority_files s' = lower_priority_files s"
      by (auto simp add: visit_file_def Let_def split: if_splits route.splits prod.splits)
    then show ?thesis by simp
  qed
qed

lemma visit_file_raises_oserror:
  assumes v: "visit_file vol out pl wants dis p s = Inl (e, w')"
    and l: "\<forall>x \<in> set pl. lower x = x"
    and k: "set (drop 1 pl) \<subseteq> fst ` set (lower_priority_files s)"
  shows "e = OSError"
proof (cases "fingerprint vol p")
  case (Inl e')
  have "e' = OSError" using Inl
    by (auto simp add: fingerprint_def get_file_size_def get_checksum_def
          split: sum.splits option.splits if_splits)
  with visit_file_fingerprint_fails [OF Inl, of out pl wants dis s] v show ?thesis by simp
next
  case (Inr cs)
  then obtain size where gs: "get_file_size vol p = Inr size" and gc: "get_checksum vol p size = Inr cs"
    by (auto simp add: fingerprint_def split: sum.splits)
  let ?ext = "lower (suffix (name_of p))"
  from v gs gc have q: "route pl wants dis ?ext = Queue_lower_priority"
    and "\<exists>e'. bucket_add ?ext (cs, p, size) (lower_priority_files s) = Inl e'"
    by (auto simp add: visit_file_def Let_def split: if_splits route.splits sum.splits prod.splits)
  then obtain e' where "bucket_add ?ext (cs, p, size) (lower_priority_files s) = Inl e'" by blast
  from bucket_add_error [OF this] route_queue_lower [OF q l] k show ?thesis by auto
qed

lemma scan_loop_raises_oserror:
  "scan_loop vol out pl wants dis ps s = Inl (e, w') \<Longrightarrow> \<forall>x \<in> set pl. lower x = x \<Longrightarrow>
   set (drop 1 pl) \<subseteq> fst ` set (lower_priority_files s) \<Longrightarrow> e = OSError"
proof (induction ps arbitrary: s)
  case Nil
  then show ?case by simp
next
  case (Cons p ps)
  show ?case
  proof (cases "visit_file vol out pl wants dis p s")
    case (Inl ew)
    with Cons.prems(1) have "visit_file vol out pl wants dis p s = Inl (e, w')" by simp
    from visit_file_raises_oserror [OF this Cons.prems(2,3)] show ?thesis .
  next
    case (Inr s1)
    with Cons.prems(1) have l: "scan_loop vol out pl wants dis ps s1 = Inl (e, w')" by simp
    from visit_file_keys [OF Inr] Cons.prems(3)
    have "set (drop 1 pl) \<subseteq> fst ` set (lower_priority_files s1)" by blast
    from Cons.IH [OF l Cons.prems(2) this] show ?thesis .
  qed
qed

lemma walk_only_raises_oserror:
  assumes "walk_through_files dis drv out (if wants then get_priority_list st else []) c temp wants w =
             Inl (e, w')"
  shows "e = OSError"
proof -
  let ?pl = "if wants then get_priority_list st else []"
  let ?s = "\<lparr>lower_priority_files = dict_init (drop 1 ?pl), non_priority_files = [],
             copied = c, number_of_copied = 0, env = w\<rparr>"
  from assms have sl: "scan_loop (contents drv) out ?pl wants dis (walk_files (listing drv)) ?s = Inl (e, w')"
    by (auto simp add: walk_through_files_def split: sum.splits)
  have l: "\<forall>x \<in> set ?pl. lower x = x" by (auto simp add: lower_get_priority_list)
  have "distinct ?pl" by (simp add: distinct_get_priority_list)
  then have "distinct (drop 1 ?pl)" by (rule distinct_drop)
  from dict_init_keys [OF this] have "fst ` set (dict_init (drop 1 ?pl)) = set (drop 1 ?pl)"
    by (metis set_map)
  then have k: "set (drop 1 ?pl) \<subseteq> fst ` set (lower_priority_files ?s)" by simp
  from scan_loop_raises_oserror [OF sl l k] show ?thesis .
qed

section \<open>What a drain leaves in the state file\<close>

lemma copy_file_console:
  "\<exists>ev. console (copy_file vol old new w) = console w @ [ev] \<and> \<not> is_saved ev"
  by (auto simp add: copy_file_def Let_def split: sum.splits dest: copy2_frame)

lemma drain_files_console:
  "drain_files vol dir rs (c, n, w) = (c', n', w') \<Longrightarrow>
     \<exists>evs. console w' = console w @ evs \<and> saves evs = 0 \<and> length evs = length rs"
proof (induction rs arbitrary: c n w)
  case Nil
  then show ?case by (simp add: saves_def)
next
  case (Cons r rs)
  obtain cs old size where r: "r = (cs, old, size)" by (cases r) auto
  let ?w1 = "copy_file vol old (pjoin dir (name_of old)) w"
  from Cons.prems have "drain_files vol dir rs (insert cs c, Suc n, ?w1) = (c', n', w')"
    by (simp add: r)
  from Cons.IH [OF this] obtain evs where e: "console w' = console ?w1 @ evs" "saves evs = 0"
    "length evs = length rs" by blast
  from copy_file_console [of vol old "pjoin dir (name_of old)" w]
  obtain ev where v: "console ?w1 = console w @ [ev]" "\<not> is_saved ev" by blast
  from e v have "console w' = console w @ (ev # evs) \<and> saves (ev # evs) = 0 \<and>
      length (ev # evs) = length (r # rs)"
    by (simp add: saves_def)
  then show ?case by blast
qed

lemma drain_priority_console:
  assumes dp: "drain_priority vol out False (p, bucket) (c, n, w) = (c', n', w')"
  shows "\<exists>evs. console w' = console w @ evs @
             (if 0 < n + length bucket then [Saved (c \<union> fst ` set bucket)] else []) \<and>
           saves evs = 0 \<and> length evs = length bucket"
proof (cases "bucket = []")
  case True
  with dp have "console w' = console w @ [] @ (if 0 < n + length bucket then [Saved (c \<union> fst ` set bucket)] else [])"
    by (auto simp add: drain_priority_def save_state_def split: if_splits)
  with True show ?thesis by (auto simp add: saves_def)
next
  case False
  obtain d w0 where cd: "create_directory_or_file out (''Priority_'' @ upper (drop 1 p)) w = (d, w0)"
    by (cases "create_directory_or_file out (''Priority_'' @ upper (drop 1 p)) w") auto
  obtain c1 n1 w1 where df: "drain_files vol d bucket (c, n, w0) = (c1, n1, w1)"
    by (cases "drain_files vol d bucket (c, n, w0)") auto
  note f0 = create_directory_frame [OF cd]
  note f1 = drain_files_frame [OF df]
  from drain_files_console [OF df] f0 obtain evs where e: "console w1 = console w @ evs"
    "saves evs = 0" "length evs = length bucket" by auto
  from False f1 have pos: "0 < n1" by simp
  from dp False cd df pos have "w' = save_state c1 w1"
    by (auto simp add: drain_priority_def Let_def)
  with e f1 False have "console w' = console w @ evs @
             (if 0 < n + length bucket then [Saved (c \<union> fst ` set bucket)] else [])"
    by (simp add: save_state_def)
  with e show ?thesis by blast
qed

lemma priorities_loop_state_file:
  "priorities_loop vol out False tiers (c, n, w) = (c', n', w') \<Longrightarrow>
     state_file w' =
       (if 0 < n \<and> tiers \<noteq> [] \<or> \<not> list_all (\<lambda>item. snd item = []) tiers
        then Valid (c \<union> fst ` (\<Union>item \<in> set tiers. set (snd item)))
        else state_file w)"
proof (induction tiers arbitrary: c n w)
  case Nil
  then show ?case by simp
next
  case (Cons item tiers)
  obtain p bucket where item: "item = (p, bucket)" by (cases item) auto
  obtain c1 n1 w1 where dp: "drain_priority vol out False (p, bucket) (c, n, w) = (c1, n1, w1)"
    by (cases "drain_priority vol out False (p, bucket) (c, n, w)") auto
  note r = drain_priority_result [OF dp]
  from Cons.prems have pl: "priorities_loop vol out False tiers (c1, n1, w1) = (c', n', w')"
    by (simp add: item dp)
  note ih = Cons.IH [OF pl]
  show ?case
  proof (cases "0 < n + length bucket")
    case True
    with r have n1: "0 < n1" and s1: "state_file w1 = Valid c1" and c1: "c1 = c \<union> fst ` set bucket"
      by simp_all
    from True have cond: "0 < n \<and> item # tiers \<noteq> [] \<or> \<not> list_all (\<lambda>item. snd item = []) (item # tiers)"
      by (auto simp add: item)
    have "state_file w' = Valid (c \<union> fst ` (\<Union>item \<in> set (item # tiers). set (snd item)))"
    proof (cases "tiers = []")
      case True
      with pl s1 c1 show ?thesis by (simp add: item)
    next
      case False
      with ih n1 c1 show ?thesis by (auto simp add: item)
    qed
    with cond show ?thesis by simp
  next
    case False
    then have b: "bucket = []" and n0: "n = 0" by simp_all
    with r have "c1 = c" "n1 = 0" "state_file w1 = state_file w" by simp_all
    with ih b n0 show ?thesis by (simp add: item)
  qed
qed

text \<open>
  Claim C6, as amended. With a persistent ledger the state file is written after a tier
  exactly when a file has been handed to \<open>copy_file\<close> in this drain so far, in that tier or
  in an earlier one. So the drain writes once per tier from the first non-empty bucket on,
  and not at all for the empty tiers before it. The write comes after the copies of the
  tier, as the last line of the tier on the console, and it writes the copied set with the
  fingerprints of the tier in it: that set is what the state file holds after the tier, and
  after the whole drain the state file holds the fingerprints of every bucket, unless all
  the buckets were empty, when the drain leaves the state file as it found it.
\<close>

theorem saved_after_tier_once_something_copied:
  "saves (console (snd (snd (drain_priority vol out False (p, bucket) (c, n, w))))) =
     saves (console w) + (if 0 < n + length bucket then 1 else 0) \<and>
   saves (console (snd (copy_other_priorities vol tiers out c False w))) =
     saves (console w) + length (dropWhile (\<lambda>item. snd item = []) tiers) \<and>
   fst (drain_priority vol out False (p, bucket) (c, n, w)) = c \<union> fst ` set bucket \<and>
   state_file (snd (snd (drain_priority vol out False (p, bucket) (c, n, w)))) =
     (if 0 < n + length bucket then Valid (c \<union> fst ` set bucket) else state_file w) \<and>
   (\<exists>evs. console (snd (snd (drain_priority vol out False (p, bucket) (c, n, w)))) =
            console w @ evs @
              (if 0 < n + length bucket then [Saved (c \<union> fst ` set bucket)] else []) \<and>
          saves evs = 0 \<and> length evs = length bucket) \<and>
   fst (copy_other_priorities vol tiers out c False w) =
     c \<union> fst ` (\<Union>item \<in> set tiers. set (snd item)) \<and>
   state_file (snd (copy_other_priorities vol tiers out c False w)) =
     (if list_all (\<lambda>item. snd item = []) tiers then state_file w
      else Valid (c \<union> fst ` (\<Union>item \<in> set tiers. set (snd item))))"
proof -
  obtain c1 n1 w1 where dp: "drain_priority vol out False (p, bucket) (c, n, w) = (c1, n1, w1)"
    by (cases "drain_priority vol out False (p, bucket) (c, n, w)") auto
  obtain c2 n2 w2 where pl: "priorities_loop vol out False tiers (c, 0, w) = (c2, n2, w2)"
    by (cases "priorities_loop vol out False tiers (c, 0, w)") auto
  have co: "copy_other_priorities vol tiers out c False w = (c2, w2)"
    by (simp add: copy_other_priorities_def pl)
  note r = drain_priority_result [OF dp]
  from r have 1: "saves (console w1) = saves (console w) + (if 0 < n + length bucket then 1 else 0)"
    by simp
  from priorities_loop_saves [OF pl]
  have 2: "saves (console w2) = saves (console w) + length (dropWhile (\<lambda>item. snd item = []) tiers)"
    by simp
  from r have 3: "c1 = c \<union> fst ` set bucket" by simp
  from r have 4: "state_file w1 = (if 0 < n + length bucket then Valid (c \<union> fst ` set bucket) else state_file w)"
    by simp
  note 5 = drain_priority_console [OF dp]
  from priorities_loop_result [OF pl] have 6: "c2 = c \<union> fst ` (\<Union>item \<in> set tiers. set (snd item))"
    by simp
  from priorities_loop_state_file [OF pl]
  have 7: "state_file w2 = (if list_all (\<lambda>item. snd item = []) tiers then state_file w
      else Valid (c \<union> fst ` (\<Union>item \<in> set tiers. set (snd item))))"
    by simp
  from 1 2 3 4 5 6 7 show ?thesis unfolding dp co by simp
qed

theorem saved_after_tier_once_something_copied_witness:
  "\<not> list_all (\<lambda>item. snd item = []) two_tiers \<and>
   saves (console (snd (copy_other_priorities Map.empty two_tiers [''out''] {} False fresh_world))) = 2 \<and>
   state_file (snd (copy_other_priorities Map.empty two_tiers [''out''] {} False fresh_world)) =
     Valid {''fp''}"
  using saved_after_tier_once_something_copied [of Map.empty "[''out'']" "''.png''" "[]" "{}" 0 fresh_world
      two_tiers]
  by (simp add: two_tiers_def fresh_world_def)

section \<open>Where an unreadable file leaves the run\<close>

lemma walk_stops:
  assumes u: "unreadable (contents drv) p" and l: "walk_files (listing drv) = before @ p # rest"
  shows "walk_through_files dis drv out pl c temp wants w =
     (case scan_loop (contents drv) out pl wants dis before (scan_start pl c w) of
        Inl e \<Rightarrow> Inl e
      | Inr s' \<Rightarrow> Inl (OSError, env s'))"
  using scan_loop_stops [OF u, of out pl wants dis before rest "scan_start pl c w"]
  by (simp add: walk_through_files_def l scan_start_def split: sum.splits)

lemma process_drive_stops:
  assumes u: "unreadable (contents drv) p" and l: "walk_files (listing drv) = before @ p # rest"
  shows "process_drive st out pl wants temp drv (c, w) =
     (case scan_loop (contents drv) (dir_of (fst (create_drive_dir out drv w))) pl wants
             (disabled_extensions st) before
             (scan_start pl c (snd (create_drive_dir out drv w))) of
        Inl e \<Rightarrow> Inl e
      | Inr s' \<Rightarrow> Inl (OSError, env s'))"
proof -
  obtain d w1 where cd: "create_drive_dir out drv w = (d, w1)" by (cases "create_drive_dir out drv w") auto
  from walk_stops [OF u l, of "disabled_extensions st" "dir_of d" pl c temp wants w1]
  show ?thesis
    by (simp add: process_drive_def cd split: sum.splits)
qed

lemma drives_loop_append:
  "drives_loop st out pl wants temp (xs @ ys) cw =
     (case drives_loop st out pl wants temp xs cw of
        Inl e \<Rightarrow> Inl e
      | Inr cw' \<Rightarrow> drives_loop st out pl wants temp ys cw')"
  by (induction xs arbitrary: cw) (auto split: sum.splits)

lemma drives_loop_stops:
  assumes u: "unreadable (contents drv) p" and l: "walk_files (listing drv) = before @ p # rest"
  shows "drives_loop st out pl wants temp (earlier @ drv # later) cw =
     (case drives_loop st out pl wants temp earlier cw of
        Inl e \<Rightarrow> Inl e
      | Inr cw' \<Rightarrow> process_drive st out pl wants temp drv cw')"
proof (cases "drives_loop st out pl wants temp earlier cw")
  case (Inl e)
  then show ?thesis by (simp add: drives_loop_append)
next
  case (Inr cw')
  obtain c w where cw': "cw' = (c, w)" by (cases cw') auto
  from process_drive_stops [OF u l, of st out pl wants temp c w]
  obtain e where "process_drive st out pl wants temp drv cw' = Inl e"
    by (auto simp add: cw' split: sum.splits)
  with Inr show ?thesis by (simp add: drives_loop_append)
qed

lemma walk_error_state_file:
  assumes "walk_through_files dis drv out pl c temp wants w = Inl (e, w')"
  shows "state_file w' = state_file w"
proof -
  from assms have "scan_loop (contents drv) out pl wants dis (walk_files (listing drv))
      \<lparr>lower_priority_files = dict_init (drop 1 pl), non_priority_files = [],
       copied = c, number_of_copied = 0, env = w\<rparr> = Inl (e, w')"
    by (auto simp add: walk_through_files_def split: sum.splits)
  from scan_loop_error_world [OF this] show ?thesis by simp
qed

text \<open>
  Claim C3, as amended. A file that cannot be fingerprinted is not skipped: the error
  leaves the scan at that file, so the files listed after it are not visited and nothing
  is queued or recorded for it. The scan, the drive and the run end with that error in the
  world that the files listed before it have left: the drains of the drive do not run, the
  drives after it are not processed, whatever they hold, and the state file is the one the
  scan began with.
\<close>

theorem unreadable_file_aborts_run:
  "unreadable (contents drv) p \<Longrightarrow>
     visit_file (contents drv) out pl wants dis p s = Inl (OSError, env s) \<and>
     scan_loop (contents drv) out pl wants dis (before @ p # rest) s =
       (case scan_loop (contents drv) out pl wants dis before s of
          Inl e \<Rightarrow> Inl e
        | Inr s' \<Rightarrow> Inl (OSError, env s')) \<and>
     (p \<in> set (walk_files (listing drv)) \<and> drv \<in> set drives \<longrightarrow>
        isl (drives_loop st out pl wants temp drives cw) \<and>
        (\<exists>e. run_session st (out, wants, temp) (drives # polls) w = Some (Inl e))) \<and>
     (walk_files (listing drv) = before @ p # rest \<longrightarrow>
        walk_through_files dis drv out pl c temp wants w =
          (case scan_loop (contents drv) out pl wants dis before (scan_start pl c w) of
             Inl e \<Rightarrow> Inl e
           | Inr s' \<Rightarrow> Inl (OSError, env s')) \<and>
        (\<forall>e w'. walk_through_files dis drv out pl c temp wants w = Inl (e, w') \<longrightarrow>
                 state_file w' = state_file w) \<and>
        process_drive st out pl wants temp drv (c, w) =
          (case scan_loop (contents drv) (dir_of (fst (create_drive_dir out drv w))) pl wants
                  (disabled_extensions st) before
                  (scan_start pl c (snd (create_drive_dir out drv w))) of
             Inl e \<Rightarrow> Inl e
           | Inr s' \<Rightarrow> Inl (OSError, env s')) \<and>
        drives_loop st out pl wants temp (earlier @ drv # later) cw =
          (case drives_loop st out pl wants temp earlier cw of
             Inl e \<Rightarrow> Inl e
           | Inr cw' \<Rightarrow> process_drive st out pl wants temp drv cw') \<and>
        run_session st (out, wants, temp) ((earlier @ drv # later) # polls) w =
          Some (case drives_loop st out (if wants then get_priority_list st else []) wants temp
                       earlier (if \<not> temp then get_copied w else ({}, w)) of
                  Inl e \<Rightarrow> Inl e
                | Inr cw' \<Rightarrow>
                    process_drive st out (if wants then get_priority_list st else []) wants temp
                      drv cw'))"
proof (intro conjI impI allI)
  assume u: "unreadable (contents drv) p"
  from visit_file_fingerprint_fails [OF unreadable_fingerprint [OF u]]
  show "visit_file (contents drv) out pl wants dis p s = Inl (OSError, env s)" .
  from scan_loop_stops [OF u]
  show "scan_loop (contents drv) out pl wants dis (before @ p # rest) s =
       (case scan_loop (contents drv) out pl wants dis before s of
          Inl e \<Rightarrow> Inl e
        | Inr s' \<Rightarrow> Inl (OSError, env s'))" .
  { assume m: "p \<in> set (walk_files (listing drv)) \<and> drv \<in> set drives"
    with drives_loop_unreadable [OF u]
    show "isl (drives_loop st out pl wants temp drives cw)" by blast
    let ?pl = "if wants then get_priority_list st else []"
    obtain c0 w0 where cw0: "(if \<not> temp then get_copied w else ({}, w)) = (c0, w0)"
      by (cases "if \<not> temp then get_copied w else ({}, w)") auto
    from m drives_loop_unreadable [OF u, of drives st out ?pl wants temp "(c0, w0)"]
    obtain e where "drives_loop st out ?pl wants temp drives (c0, w0) = Inl e"
      by (auto simp add: isl_def)
    moreover from m have "drives \<noteq> []" by auto
    ultimately have "run_session st (out, wants, temp) (drives # polls) w = Some (Inl e)"
      using cw0 by (simp add: run_session_def)
    then show "\<exists>e. run_session st (out, wants, temp) (drives # polls) w = Some (Inl e)" .. }
  { assume l: "walk_files (listing drv) = before @ p # rest"
    from walk_stops [OF u l]
    show "walk_through_files dis drv out pl c temp wants w =
          (case scan_loop (contents drv) out pl wants dis before (scan_start pl c w) of
             Inl e \<Rightarrow> Inl e
           | Inr s' \<Rightarrow> Inl (OSError, env s'))" .
    from process_drive_stops [OF u l]
    show "process_drive st out pl wants temp drv (c, w) =
          (case scan_loop (contents drv) (dir_of (fst (create_drive_dir out drv w))) pl wants
                  (disabled_extensions st) before
                  (scan_start pl c (snd (create_drive_dir out drv w))) of
             Inl e \<Rightarrow> Inl e
           | Inr s' \<Rightarrow> Inl (OSError, env s'))" .
    from drives_loop_stops [OF u l]
    show "drives_loop st out pl wants temp (earlier @ drv # later) cw =
          (case drives_loop st out pl wants temp earlier cw of
             Inl e \<Rightarrow> Inl e
           | Inr cw' \<Rightarrow> process_drive st out pl wants temp drv cw')" .
    obtain c0 w0 where cw0: "(if \<not> temp then get_copied w else ({}, w)) = (c0, w0)"
      by (cases "if \<not> temp then get_copied w else ({}, w)") auto
    from drives_loop_stops [OF u l, of st out "if wants then get_priority_list st else []" wants temp
        earlier later "(c0, w0)"] cw0
    show "run_session st (out, wants, temp) ((earlier @ drv # later) # polls) w =
          Some (case drives_loop st out (if wants then get_priority_list st else []) wants temp
                       earlier (if \<not> temp then get_copied w else ({}, w)) of
                  Inl e \<Rightarrow> Inl e
                | Inr cw' \<Rightarrow>
                    process_drive st out (if wants then get_priority_list st else []) wants temp
                      drv cw')"
      by (simp add: run_session_def)
    fix e w'
    assume "walk_through_files dis drv out pl c temp wants w = Inl (e, w')"
    from walk_error_state_file [OF this] show "state_file w' = state_file w" . }
qed

theorem unreadable_file_aborts_run_witness:
  "unreadable (contents locked_first_drive) ([''E:''], ''bad.jpg'') \<and>
   ([''E:''], ''bad.jpg'') \<in> set (walk_files (listing locked_first_drive)) \<and>
   walk_files (listing locked_first_drive) = [] @ ([''E:''], ''bad.jpg'') # [([''E:''], ''good.jpg'')] \<and>
   walk_through_files {} locked_first_drive [''out''] [''.jpg'', ''.txt''] {} False True fresh_world =
     Inl (OSError, fresh_world) \<and>
   isl (drives_loop template_settings [''out''] [''.jpg'', ''.txt''] True False
          [locked_first_drive, jpg_drive] ({}, fresh_world)) \<and>
   observe (run_session template_settings ([''out''], True, False)
              [[locked_first_drive, jpg_drive]] fresh_world) =
     Some (Inl (OSError, [], Valid {}))"
proof -
  let ?p = "([''E:''], ''bad.jpg'')"
  have u: "unreadable (contents locked_first_drive) ?p"
    by (simp add: unreadable_def locked_first_drive_def locked_file_def)
  have l: "walk_files (listing locked_first_drive) = [] @ ?p # [([''E:''], ''good.jpg'')]"
    by (simp add: walk_files_def locked_first_drive_def)
  then have m: "?p \<in> set (walk_files (listing locked_first_drive))" by simp
  note t = unreadable_file_aborts_run [OF u, where out = "[''out'']" and pl = "[''.jpg'', ''.txt'']"
      and wants = True and dis = "{}" and before = "[]" and rest = "[([''E:''], ''good.jpg'')]"
      and drives = "[locked_first_drive, jpg_drive]" and st = template_settings and temp = False
      and cw = "({}, fresh_world)" and polls = "[]" and w = fresh_world and c = "{}"
      and earlier = "[]" and later = "[jpg_drive]"]
  from t l have k: "walk_through_files {} locked_first_drive [''out''] [''.jpg'', ''.txt''] {} False True
      fresh_world = Inl (OSError, fresh_world)"
    by (simp add: scan_start_def)
  from t m have i: "isl (drives_loop template_settings [''out''] [''.jpg'', ''.txt''] True False
          [locked_first_drive, jpg_drive] ({}, fresh_world))" by simp
  from t l have "run_session template_settings ([''out''], True, False)
              [[locked_first_drive, jpg_drive]] fresh_world =
          Some (case drives_loop template_settings [''out'']
                       (if True then get_priority_list template_settings else []) True False
                       [] (if \<not> False then get_copied fresh_world else ({}, fresh_world)) of
                  Inl e \<Rightarrow> Inl e
                | Inr cw' \<Rightarrow>
                    process_drive template_settings [''out'']
                      (if True then get_priority_list template_settings else []) True False
                      locked_first_drive cw')"
    by simp
  then have "observe (run_session template_settings ([''out''], True, False)
              [[locked_first_drive, jpg_drive]] fresh_world) =
     Some (Inl (OSError, [], Valid {}))"
    by (simp add: eval_defs locked_first_drive_def locked_file_def)
  with u m l k i show ?thesis by simp
qed

section \<open>Failed copies in a whole run\<close>


























text \<open>
  The proviso matters: when the picture whose copy failed is followed by one that cannot
  be fingerprinted, the scan ends before its save and the failed copy is not in the state
  file.
\<close>

lemma failed_copy_lost_when_scan_aborts:
  "observe (run_session template_settings ([''out''], True, False) [[locked_pair_drive]] locked_world) =
     Some (Inl (OSError, [Exception_line ([''E:''], ''x.jpg'') x_jpg], Valid {}))"
  by (simp add: eval_defs locked_pair_drive_def locked_file_def x_jpg_def locked_world_def)

end
